theory Spec2Isabelle
  imports Main "HOL-Library.Word"
begin

unbundle bit_operations_syntax

section \<open>The modem driver Sodaq\_N3X as HOL functions\<close>

text \<open>
  The development embeds the line framer, the response matcher, the notification
  dispatcher and the socket manager of \<^verbatim>\<open>src/Sodaq_N3X.cpp\<close>. The target is the
  32-bit SAMD21 boards of the library: \<^verbatim>\<open>int\<close> and \<^verbatim>\<open>size_t\<close> are 32 bits wide and
  plain \<^verbatim>\<open>char\<close> is unsigned. The millisecond clock is a natural number that does not
  wrap during a call; code itself takes no time, only waiting for the modem does.
\<close>

subsection \<open>Constants of the source file\<close>

definition CR :: char where "CR = CHR 0x0D"
definition LF :: char where "LF = CHR 0x0A"
definition NUL :: char where "NUL = CHR 0x00"

definition STR_AT :: string where "STR_AT = ''AT''"
definition STR_RESPONSE_OK :: string where "STR_RESPONSE_OK = ''OK''"
definition STR_RESPONSE_ERROR :: string where "STR_RESPONSE_ERROR = ''ERROR''"
definition STR_RESPONSE_CME_ERROR :: string where "STR_RESPONSE_CME_ERROR = ''+CME ERROR:''"
definition STR_RESPONSE_CMS_ERROR :: string where "STR_RESPONSE_CMS_ERROR = ''+CMS ERROR:''"
definition AUTOMATIC_OPERATOR :: string where "AUTOMATIC_OPERATOR = ''0''"

definition SODAQ_GSM_TERMINATOR :: string where "SODAQ_GSM_TERMINATOR = [CR, LF]"
definition SODAQ_GSM_TERMINATOR_LEN :: nat where
  "SODAQ_GSM_TERMINATOR_LEN = length SODAQ_GSM_TERMINATOR"
definition SODAQ_GSM_MODEM_DEFAULT_INPUT_BUFFER_SIZE :: nat where
  "SODAQ_GSM_MODEM_DEFAULT_INPUT_BUFFER_SIZE = 1024"

definition COPS_TIMEOUT :: nat where "COPS_TIMEOUT = 180000"
definition SOCKET_CLOSE_TIMEOUT :: nat where "SOCKET_CLOSE_TIMEOUT = 120000"
definition SOCKET_CONNECT_TIMEOUT :: nat where "SOCKET_CONNECT_TIMEOUT = 120000"
definition SOCKET_WRITE_TIMEOUT :: nat where "SOCKET_WRITE_TIMEOUT = 120000"
definition SOCKET_FAIL :: int where "SOCKET_FAIL = - 1"

text \<open>
  The header \<^verbatim>\<open>Sodaq_N3X.h\<close> is not part of the sources at hand. Its macros are the
  fields of a configuration that every function takes: the number of socket sessions, the
  size of the receive scratch buffer, the largest payload of one send, and the default
  timeout of \<^verbatim>\<open>readResponse\<close>. The other default arguments of \<^verbatim>\<open>readResponse\<close> (no output
  buffer, capacity 0, no prefix) are written out at each call.
\<close>

record config =
  SOCKET_COUNT :: nat
  SODAQ_N3X_MAX_UDP_BUFFER :: nat
  SODAQ_MAX_SEND_MESSAGE_SIZE :: nat
  DEFAULT_READ_MS :: nat

datatype GSMResponseTypes = GSMResponseOK | GSMResponseError | GSMResponseTimeout

datatype Protocols = TCP | UDP

subsection \<open>Arrays in memory\<close>

text \<open>
  A C array is its cells together with the memory around it: \<open>outside\<close> gives the byte
  found at an index that is not a cell, and \<open>stray\<close> records that a write has landed
  outside the cells. Indices are integers, so that \<^verbatim>\<open>buffer[-1]\<close> is expressible.
\<close>

record 'a carray =
  cells :: "'a list"
  outside :: "int \<Rightarrow> 'a"
  stray :: bool

definition in_cells :: "'a carray \<Rightarrow> int \<Rightarrow> bool" where
  "in_cells a i = (0 \<le> i \<and> i < int (length (cells a)))"

definition peek :: "'a carray \<Rightarrow> int \<Rightarrow> 'a" where
  "peek a i = (if in_cells a i then cells a ! nat i else outside a i)"

definition poke :: "'a carray \<Rightarrow> int \<Rightarrow> 'a \<Rightarrow> 'a carray" where
  "poke a i v =
     (if in_cells a i then a\<lparr>cells := (cells a)[nat i := v]\<rparr>
      else a\<lparr>outside := (outside a)(i := v), stray := True\<rparr>)"

text \<open>A \<^verbatim>\<open>size_t\<close> is a natural number below \<open>2 ^ 32\<close>; subtraction wraps.\<close>

definition size_sub :: "nat \<Rightarrow> nat \<Rightarrow> nat" where
  "size_sub a b = (a + 2 ^ 32 - b mod 2 ^ 32) mod 2 ^ 32"

text \<open>
  The cell that \<^verbatim>\<open>buffer[n]\<close> addresses for a \<^verbatim>\<open>size_t n\<close>, and the value of
  \<^verbatim>\<open>n\<close> converted to \<^verbatim>\<open>int\<close>: addresses and integers are 32 bits wide, the upper half
  of the range is the negative numbers.
\<close>

definition as_int :: "nat \<Rightarrow> int" where
  "as_int n = (if n < 2 ^ 31 then int n else int n - 2 ^ 32)"

text \<open>The bytes of a C string: the cells up to the first NUL.\<close>

definition c_str :: "char carray \<Rightarrow> string" where
  "c_str a = takeWhile (\<lambda>c. c \<noteq> NUL) (cells a)"

subsection \<open>The driver's state and the serial transport\<close>

text \<open>
  \<open>rx\<close> is what the modem sends: each byte with the time at which it reaches the
  receive queue. \<open>tx\<close> is everything written to the modem so far.
\<close>

record modem =
  now :: nat
  rx :: "(nat \<times> char) list"
  tx :: string
  appendCommand :: bool
  inputBuffer :: "char carray"
  socketClosedBit :: "bool carray"
  socketPendingBytes :: "32 word carray"

definition inputBufferSize :: nat where
  "inputBufferSize = SODAQ_GSM_MODEM_DEFAULT_INPUT_BUFFER_SIZE"

definition is_timedout :: "nat \<Rightarrow> nat \<Rightarrow> modem \<Rightarrow> bool" where
  "is_timedout from_ms nr_ms s = (now s - from_ms > nr_ms)"

text \<open>
  \<^verbatim>\<open>timedRead\<close> polls the stream until a byte is there or the time is up. A byte that
  is queued already, or arrives before \<open>timeout\<close> milliseconds have passed, is returned
  at its arrival; otherwise the call returns \<open>-1\<close> after \<open>timeout\<close> milliseconds.
\<close>

definition timedRead :: "nat \<Rightarrow> modem \<Rightarrow> int \<times> modem" where
  "timedRead timeout s =
     (case rx s of
        [] \<Rightarrow> (- 1, s\<lparr>now := now s + timeout\<rparr>)
      | (t, c) # r \<Rightarrow>
          if t \<le> now s \<or> t - now s < timeout
          then (of_char c, s\<lparr>now := max (now s) t, rx := r\<rparr>)
          else (- 1, s\<lparr>now := now s + timeout\<rparr>))"

function readBytesUntil_loop ::
  "char \<Rightarrow> nat \<Rightarrow> nat \<Rightarrow> nat \<Rightarrow> char carray \<Rightarrow> modem \<Rightarrow> nat \<times> char carray \<times> modem" where
  "readBytesUntil_loop terminator timeout lengthN index buffer s =
     (if index < lengthN then
        (case timedRead timeout s of
           (c, s') \<Rightarrow>
             if c < 0 \<or> c = of_char terminator then (index, buffer, s')
             else readBytesUntil_loop terminator timeout lengthN (Suc index)
                    (poke buffer (int index) (char_of c)) s')
      else (index, buffer, s))"
  by pat_completeness auto
termination
  by (relation "measure (\<lambda>(terminator, timeout, lengthN, index, buffer, s). lengthN - index)") auto

definition readBytesUntil ::
  "char \<Rightarrow> char carray \<Rightarrow> nat \<Rightarrow> nat \<Rightarrow> modem \<Rightarrow> nat \<times> char carray \<times> modem" where
  "readBytesUntil terminator buffer lengthN timeout s =
     (if lengthN < 1 then (0, buffer, s)
      else case readBytesUntil_loop terminator timeout lengthN 0 buffer s of
        (index, b, s') \<Rightarrow>
          (index, (if index < lengthN then poke b (int index) NUL else b), s'))"

definition readLn :: "char carray \<Rightarrow> nat \<Rightarrow> nat \<Rightarrow> modem \<Rightarrow> nat \<times> char carray \<times> modem" where
  "readLn buffer bsize timeout s =
     (case readBytesUntil (SODAQ_GSM_TERMINATOR ! (SODAQ_GSM_TERMINATOR_LEN - 1)) buffer
             (size_sub bsize 1) timeout s of
        (len, b, s') \<Rightarrow>
          let len' =
                (if SODAQ_GSM_TERMINATOR_LEN > 1 \<and>
                    peek b (as_int (size_sub len (SODAQ_GSM_TERMINATOR_LEN - 1))) = SODAQ_GSM_TERMINATOR ! 0
                 then size_sub len (SODAQ_GSM_TERMINATOR_LEN - 1) else len)
          in (len', poke b (as_int len') NUL, s'))"

declare readBytesUntil_loop.simps [simp del]

subsection \<open>The C library: strings and \<^verbatim>\<open>sscanf\<close>\<close>

text \<open>
  C strings are HOL strings without the closing NUL. \<^verbatim>\<open>startsWith\<close> is
  \<^verbatim>\<open>strncmp(pre, str, strlen(pre)) == 0\<close>.
\<close>

definition startsWith :: "string \<Rightarrow> string \<Rightarrow> bool" where
  "startsWith pre str = (take (length pre) str = pre)"

definition isspace :: "char \<Rightarrow> bool" where
  "isspace c = (c = CHR '' '' \<or> c = CHR 0x09 \<or> c = CHR 0x0A \<or> c = CHR 0x0B \<or> c = CHR 0x0C \<or> c = CHR 0x0D)"

definition isdigit :: "char \<Rightarrow> bool" where
  "isdigit c = (48 \<le> (of_char c :: nat) \<and> (of_char c :: nat) \<le> 57)"

text \<open>
  \<^verbatim>\<open>sscanf\<close> belongs to the C library, not to the repository; the model follows
  ISO C for the directives the source file uses: white space (skips any white space),
  an ordinary character (must match), \<^verbatim>\<open>%d\<close> (skips white space, then an optional sign
  and decimal digits), \<^verbatim>\<open>%[^"]\<close> (a non-empty run of characters other than the double
  quote), and the two with \<^verbatim>\<open>*\<close> (matched but not stored). A number that does not fit 32
  bits is reduced modulo \<open>2 ^ 32\<close>. The result is the number of stored values with the
  values, and \<open>-1\<close> (EOF) when the input ends before the first value is stored.
\<close>

datatype directive = White | Lit char | Conv_d bool | Conv_not_quote bool | Unsupported

datatype sval = IntV "32 word" | StrV string

function parse_format :: "string \<Rightarrow> directive list" where
  \<open>parse_format f =
     (if f = [] then []
      else if take 2 f = ''%d'' then Conv_d True # parse_format (drop 2 f)
      else if take 3 f = ''%*d'' then Conv_d False # parse_format (drop 3 f)
      else if take 5 f = ''%[^"]'' then Conv_not_quote True # parse_format (drop 5 f)
      else if take 6 f = ''%*[^"]'' then Conv_not_quote False # parse_format (drop 6 f)
      else if hd f = CHR ''%'' then [Unsupported]
      else if isspace (hd f) then White # parse_format (tl f)
      else Lit (hd f) # parse_format (tl f))\<close>
  by pat_completeness auto
termination
  by (relation "measure length") (auto simp: neq_Nil_conv)

declare parse_format.simps [simp del]

definition dec_value :: "string \<Rightarrow> 32 word" where
  "dec_value ds = foldl (\<lambda>a c. a * 10 + (of_char c - 48)) 0 ds"

definition scan_int :: "string \<Rightarrow> (32 word \<times> string) option" where
  "scan_int inp =
     (let neg = (inp \<noteq> [] \<and> hd inp = CHR ''-'');
          r = (if inp \<noteq> [] \<and> (hd inp = CHR ''-'' \<or> hd inp = CHR ''+'') then tl inp else inp);
          ds = takeWhile isdigit r
      in if ds = [] then None
         else Some (if neg then - dec_value ds else dec_value ds, dropWhile isdigit r))"

datatype scan_end = Complete | MatchingFailure | InputFailure

fun scan :: "directive list \<Rightarrow> string \<Rightarrow> sval list \<Rightarrow> scan_end \<times> sval list" where
  "scan [] inp vs = (Complete, vs)"
| "scan (White # ds) inp vs = scan ds (dropWhile isspace inp) vs"
| "scan (Lit c # ds) inp vs =
     (case inp of
        [] \<Rightarrow> (InputFailure, vs)
      | x # r \<Rightarrow> if x = c then scan ds r vs else (MatchingFailure, vs))"
| "scan (Conv_d store # ds) inp vs =
     (if dropWhile isspace inp = [] then (InputFailure, vs)
      else case scan_int (dropWhile isspace inp) of
             None \<Rightarrow> (MatchingFailure, vs)
           | Some (v, r) \<Rightarrow> scan ds r (if store then vs @ [IntV v] else vs))"
| \<open>scan (Conv_not_quote store # ds) inp vs =
     (if inp = [] then (InputFailure, vs)
      else if takeWhile (\<lambda>c. c \<noteq> CHR ''"'') inp = [] then (MatchingFailure, vs)
      else scan ds (dropWhile (\<lambda>c. c \<noteq> CHR ''"'') inp)
             (if store then vs @ [StrV (takeWhile (\<lambda>c. c \<noteq> CHR ''"'') inp)] else vs))\<close>
| "scan (Unsupported # ds) inp vs = (MatchingFailure, vs)"

definition sscanf :: "string \<Rightarrow> string \<Rightarrow> int \<times> sval list" where
  "sscanf str fmt =
     (case scan (parse_format fmt) str [] of
        (e, vs) \<Rightarrow> if e = InputFailure \<and> vs = [] then (- 1, []) else (int (length vs), vs))"

definition int_arg :: "sval list \<Rightarrow> nat \<Rightarrow> 32 word" where
  "int_arg vs k = (case vs ! k of IntV v \<Rightarrow> v | StrV _ \<Rightarrow> 0)"

definition str_arg :: "sval list \<Rightarrow> nat \<Rightarrow> string" where
  "str_arg vs k = (case vs ! k of StrV v \<Rightarrow> v | IntV _ \<Rightarrow> [])"

subsection \<open>The notification dispatcher\<close>

definition checkURC :: "config \<Rightarrow> string \<Rightarrow> modem \<Rightarrow> bool \<times> modem" where
  "checkURC cfg buffer s =
     (if (case buffer of [] \<Rightarrow> NUL | c # _ \<Rightarrow> c) \<noteq> CHR ''+'' then (False, s)
      else if fst (sscanf buffer ''+UFOTAS: %d,%d'') = 2 then (True, s)
      else if fst (sscanf buffer ''+UUSORF: %d,%d'') = 2 then
        (let param1 = int_arg (snd (sscanf buffer ''+UUSORF: %d,%d'')) 0;
             param2 = int_arg (snd (sscanf buffer ''+UUSORF: %d,%d'')) 1
         in (True,
             if 0 \<le> sint param1 \<and> sint param1 < int (SOCKET_COUNT cfg)
             then s\<lparr>socketPendingBytes :=
                      poke (socketPendingBytes s) (sint param1)
                        (peek (socketPendingBytes s) (sint param1) + param2)\<rparr>
             else s))
      else if fst (sscanf buffer ''+UUSOCL: %d'') = 1 then
        (let param1 = int_arg (snd (sscanf buffer ''+UUSOCL: %d'')) 0
         in (True,
             if 0 \<le> sint param1 \<and> sint param1 < int (SOCKET_COUNT cfg)
             then s\<lparr>socketClosedBit := poke (socketClosedBit s) (sint param1) True\<rparr>
             else s))
      else if fst (sscanf buffer ''+CSCON: %d'') = 1 then (True, s)
      else (False, s))"

subsection \<open>The response matcher\<close>

text \<open>An \<^verbatim>\<open>int\<close> converted to \<^verbatim>\<open>size_t\<close>, and addition of two \<^verbatim>\<open>size_t\<close>.\<close>

definition to_size :: "int \<Rightarrow> nat" where
  "to_size i = nat (i mod 2 ^ 32)"

definition size_add :: "nat \<Rightarrow> nat \<Rightarrow> nat" where
  "size_add a b = (a + b) mod 2 ^ 32"

fun memcpy :: "char carray \<Rightarrow> int \<Rightarrow> char carray \<Rightarrow> int \<Rightarrow> nat \<Rightarrow> char carray" where
  "memcpy dst d src f 0 = dst"
| "memcpy dst d src f (Suc n) = memcpy (poke dst d (peek src f)) (d + 1) src (f + 1) n"

text \<open>
  The block of \<^verbatim>\<open>readResponse\<close> that appends the line in the input buffer to the output
  buffer. \<open>hasPrefix\<close> and \<open>prefix\<close> are those of the caller, \<open>count\<close> is the length of the
  line; the result is the output buffer and \<open>outSize\<close> after the block.
\<close>

definition append_line ::
  "nat \<Rightarrow> bool \<Rightarrow> string \<Rightarrow> char carray \<Rightarrow> int \<Rightarrow> char carray \<Rightarrow> nat \<Rightarrow> char carray \<times> nat" where
  "append_line outMaxSize hasPrefix prefix inBuf count outBuffer outSize =
     (let (ob1, outSize1) =
            (if outSize > 0 \<and> outSize < size_sub outMaxSize 1
             then (poke outBuffer (as_int outSize) LF, size_add outSize 1)
             else (outBuffer, outSize))
      in if outSize1 < size_sub outMaxSize 1 then
           (let i = (if hasPrefix then as_int (length prefix) else 0);
                count1 = count - i;
                count2 = (if size_add outSize1 (to_size count1) > size_sub outMaxSize 1
                          then as_int (size_sub (size_sub outMaxSize 1) outSize1) else count1);
                ob2 = memcpy ob1 (as_int outSize1) inBuf i (to_size count2);
                outSize2 = size_add outSize1 (to_size count2)
            in (poke ob2 (as_int outSize2) NUL, outSize2))
         else (ob1, outSize1))"

text \<open>
  One pass through the body of the \<^verbatim>\<open>while\<close> loop of \<^verbatim>\<open>readResponse\<close>, in two
  parts: \<^verbatim>\<open>readLn\<close> frames a line in the input buffer, and \<open>readResponse_line\<close> is
  the rest of the body, for a line of \<open>count\<close> characters. The first component of the
  result is the value of a \<^verbatim>\<open>return\<close>, or \<open>None\<close> when the loop goes on; the others are
  the output buffer, \<open>outSize\<close> and the driver's state.
\<close>

definition readResponse_line ::
  "config \<Rightarrow> nat \<Rightarrow> string option \<Rightarrow> int \<Rightarrow> char carray option \<times> nat \<times> modem
     \<Rightarrow> GSMResponseTypes option \<times> char carray option \<times> nat \<times> modem" where
  "readResponse_line cfg outMaxSize prefix count st =
     (case st of (outBuffer, outSize, s) \<Rightarrow>
      let usePrefix = (prefix \<noteq> None \<and> the prefix \<noteq> []);
          useOutBuffer = (outBuffer \<noteq> None \<and> outMaxSize > 0);
          line = c_str (inputBuffer s)
      in if count \<le> 0 then (None, outBuffer, outSize, s)
         else if startsWith STR_AT line then (None, outBuffer, outSize, s)
         else if startsWith STR_RESPONSE_OK line then (Some GSMResponseOK, outBuffer, outSize, s)
         else if startsWith STR_RESPONSE_ERROR line \<or>
                 startsWith STR_RESPONSE_CME_ERROR line \<or>
                 startsWith STR_RESPONSE_CMS_ERROR line
              then (Some GSMResponseError, outBuffer, outSize, s)
         else
           let hasPrefix = (usePrefix \<and> useOutBuffer \<and> startsWith (the prefix) line)
           in if \<not> hasPrefix \<and> fst (checkURC cfg line s)
              then (None, outBuffer, outSize, snd (checkURC cfg line s))
              else
                let s' = (if \<not> hasPrefix then snd (checkURC cfg line s) else s)
                in if hasPrefix \<or> (\<not> usePrefix \<and> useOutBuffer) then
                     (case append_line outMaxSize hasPrefix (case prefix of None \<Rightarrow> [] | Some p \<Rightarrow> p)
                             (inputBuffer s) count (the outBuffer) outSize of
                        (ob, n) \<Rightarrow> (None, Some ob, n, s'))
                   else (None, outBuffer, outSize, s'))"

definition readResponse_body ::
  "config \<Rightarrow> nat \<Rightarrow> string option \<Rightarrow> char carray option \<times> nat \<times> modem
     \<Rightarrow> GSMResponseTypes option \<times> char carray option \<times> nat \<times> modem" where
  "readResponse_body cfg outMaxSize prefix st =
     (case st of (outBuffer, outSize, s) \<Rightarrow>
      case readLn (inputBuffer s) inputBufferSize 250 s of
        (len, ib, s') \<Rightarrow>
          readResponse_line cfg outMaxSize prefix (as_int len) (outBuffer, outSize, s'\<lparr>inputBuffer := ib\<rparr>))"

text \<open>
  Every pass through the body takes a byte from the receive queue or lets 250 ms go by,
  which is why the loop of \<^verbatim>\<open>readResponse\<close> ends.
\<close>

lemma timedRead_cases:
  "timedRead timeout s = (c, s') \<Longrightarrow>
     (c = - 1 \<and> s' = s\<lparr>now := now s + timeout\<rparr>) \<or>
     (\<exists>t ch r. rx s = (t, ch) # r \<and> c = of_char ch \<and> s' = s\<lparr>now := max (now s) t, rx := r\<rparr>)"
  by (auto simp: timedRead_def split: list.splits if_splits)

lemma of_char_nonneg: "\<not> (of_char ch :: int) < 0"
  by (simp add: of_char_def)

lemma readBytesUntil_loop_mono:
  "readBytesUntil_loop terminator timeout lengthN index buffer s = (k, b', s') \<Longrightarrow>
     length (rx s') \<le> length (rx s) \<and> now s \<le> now s'"
proof (induction terminator timeout lengthN index buffer s rule: readBytesUntil_loop.induct)
  case (1 terminator timeout lengthN index buffer s)
  show ?case
  proof (cases "index < lengthN")
    case False
    with "1.prems" show ?thesis by (simp add: readBytesUntil_loop.simps)
  next
    case True
    obtain c s1 where tr: "timedRead timeout s = (c, s1)" by (cases "timedRead timeout s")
    have m1: "length (rx s1) \<le> length (rx s) \<and> now s \<le> now s1"
      using timedRead_cases [OF tr] by auto
    show ?thesis
    proof (cases "c < 0 \<or> c = of_char terminator")
      case True
      with \<open>index < lengthN\<close> tr "1.prems" m1 show ?thesis
        by (simp add: readBytesUntil_loop.simps)
    next
      case False
      with \<open>index < lengthN\<close> tr "1.prems"
      have "readBytesUntil_loop terminator timeout lengthN (Suc index)
              (poke buffer (int index) (char_of c)) s1 = (k, b', s')"
        by (simp add: readBytesUntil_loop.simps)
      from "1.IH" [OF \<open>index < lengthN\<close> tr [symmetric] False this] m1
      show ?thesis by simp
    qed
  qed
qed

lemma readBytesUntil_loop_progress:
  assumes "readBytesUntil_loop terminator timeout lengthN index buffer s = (k, b', s')"
    and "index < lengthN"
  shows "length (rx s') < length (rx s) \<or> (length (rx s') = length (rx s) \<and> now s' = now s + timeout)"
proof -
  obtain c s1 where tr: "timedRead timeout s = (c, s1)" by (cases "timedRead timeout s")
  show ?thesis
  proof (cases "c < 0 \<or> c = of_char terminator")
    case True
    with assms tr have "s' = s1" by (simp add: readBytesUntil_loop.simps)
    with timedRead_cases [OF tr] show ?thesis by auto
  next
    case False
    with assms tr
    have "readBytesUntil_loop terminator timeout lengthN (Suc index)
            (poke buffer (int index) (char_of c)) s1 = (k, b', s')"
      by (simp add: readBytesUntil_loop.simps)
    from readBytesUntil_loop_mono [OF this] timedRead_cases [OF tr] False
    show ?thesis by (auto simp: of_char_nonneg)
  qed
qed

lemma readLn_progress:
  assumes "readLn buffer inputBufferSize timeout s = (len, b, s')"
  shows "length (rx s') < length (rx s) \<or> (length (rx s') = length (rx s) \<and> now s' = now s + timeout)"
proof -
  have sz: "size_sub inputBufferSize (Suc 0) = 1023"
    by (simp add: size_sub_def inputBufferSize_def SODAQ_GSM_MODEM_DEFAULT_INPUT_BUFFER_SIZE_def)
  obtain k b1 s1 where l: "readBytesUntil_loop LF timeout 1023 0 buffer s = (k, b1, s1)"
    by (cases "readBytesUntil_loop LF timeout 1023 0 buffer s")
  have "s' = s1" using assms l
    by (simp add: readLn_def readBytesUntil_def sz SODAQ_GSM_TERMINATOR_def SODAQ_GSM_TERMINATOR_LEN_def Let_def
        split: if_splits)
  with readBytesUntil_loop_progress [OF l] show ?thesis by simp
qed

lemma checkURC_rx [simp]: "rx (snd (checkURC cfg line s)) = rx s"
  by (simp add: checkURC_def Let_def)

lemma checkURC_now [simp]: "now (snd (checkURC cfg line s)) = now s"
  by (simp add: checkURC_def Let_def)

lemma readResponse_body_progress:
  assumes "readResponse_body cfg outMaxSize prefix (ob, n, s) = (r, ob', n', s')"
  shows "length (rx s') < length (rx s) \<or> (length (rx s') = length (rx s) \<and> now s' = now s + 250)"
proof -
  obtain len ib s0 where l: "readLn (inputBuffer s) inputBufferSize 250 s = (len, ib, s0)"
    by (cases "readLn (inputBuffer s) inputBufferSize 250 s")
  have "rx s' = rx s0 \<and> now s' = now s0"
    using assms l
    by (auto simp: readResponse_body_def readResponse_line_def Let_def split: if_splits prod.splits)
  with readLn_progress [OF l] show ?thesis by simp
qed

text \<open>
  The loop of \<^verbatim>\<open>readResponse\<close>, entered with the time \<open>from_ms\<close> of the call; the result
  is the response type, the output buffer and the state.
\<close>

function readResponse_loop ::
  "config \<Rightarrow> nat \<Rightarrow> string option \<Rightarrow> nat \<Rightarrow> nat \<Rightarrow> char carray option \<times> nat \<times> modem
     \<Rightarrow> GSMResponseTypes \<times> char carray option \<times> modem" where
  "readResponse_loop cfg outMaxSize prefix timeout from_ms st =
     (if is_timedout from_ms timeout (snd (snd st)) then (GSMResponseTimeout, fst st, snd (snd st))
      else case readResponse_body cfg outMaxSize prefix st of
             (Some r, st') \<Rightarrow> (r, fst st', snd (snd st'))
           | (None, st') \<Rightarrow> readResponse_loop cfg outMaxSize prefix timeout from_ms st')"
  by pat_completeness auto
termination
proof (relation "measures [\<lambda>(cfg, outMaxSize, prefix, timeout, from_ms, st). length (rx (snd (snd st))),
                           \<lambda>(cfg, outMaxSize, prefix, timeout, from_ms, st). Suc (from_ms + timeout) - now (snd (snd st))]",
       goal_cases)
  case 1
  show ?case by simp
next
  case (2 cfg outMaxSize prefix timeout from_ms st x st')
  obtain ob n s where st: "st = (ob, n, s)" by (cases st)
  obtain ob' n' s' where st': "st' = (ob', n', s')" by (cases st')
  from 2 st st' have "readResponse_body cfg outMaxSize prefix (ob, n, s) = (None, ob', n', s')"
    by simp
  from readResponse_body_progress [OF this] 2(1) st st'
  show ?case by (auto simp: is_timedout_def)
qed

declare readResponse_loop.simps [simp del]

definition readResponse ::
  "config \<Rightarrow> char carray option \<Rightarrow> nat \<Rightarrow> string option \<Rightarrow> nat \<Rightarrow> modem
     \<Rightarrow> GSMResponseTypes \<times> char carray option \<times> modem" where
  "readResponse cfg outBuffer outMaxSize prefix timeout s =
     readResponse_loop cfg outMaxSize prefix timeout (now s)
       (map_option (\<lambda>b. poke b 0 NUL) outBuffer, 0, s)"

subsection \<open>Writing to the modem\<close>

text \<open>
  The overloads of \<^verbatim>\<open>print\<close> and \<^verbatim>\<open>println\<close> by the type of their argument. The
  stream's own \<^verbatim>\<open>print\<close> (the Arduino core) writes a string as it is and a number in
  decimal.
\<close>

fun dec :: "nat \<Rightarrow> string" where
  "dec n = (if n < 10 then [char_of (48 + n)] else dec (n div 10) @ [char_of (48 + n mod 10)])"

declare dec.simps [simp del]

definition writeProlog :: "modem \<Rightarrow> modem" where
  "writeProlog s = (if \<not> appendCommand s then s\<lparr>appendCommand := True\<rparr> else s)"

definition print_str :: "string \<Rightarrow> modem \<Rightarrow> modem" where
  "print_str buffer s = (writeProlog s)\<lparr>tx := tx s @ buffer\<rparr>"

definition print_char :: "char \<Rightarrow> modem \<Rightarrow> modem" where
  "print_char v s = (writeProlog s)\<lparr>tx := tx s @ [v]\<rparr>"

definition print_num :: "nat \<Rightarrow> modem \<Rightarrow> modem" where
  "print_num v s = (writeProlog s)\<lparr>tx := tx s @ dec v\<rparr>"

definition println :: "modem \<Rightarrow> modem" where
  "println s = (print_char CR s)\<lparr>appendCommand := False\<rparr>"

definition println_str :: "string \<Rightarrow> modem \<Rightarrow> modem" where
  "println_str c s = println (print_str c s)"

definition println_char :: "char \<Rightarrow> modem \<Rightarrow> modem" where
  "println_char c s = println (print_char c s)"

definition println_num :: "nat \<Rightarrow> modem \<Rightarrow> modem" where
  "println_num v s = println (print_num v s)"

definition execCommand ::
  "config \<Rightarrow> string \<Rightarrow> nat \<Rightarrow> char carray option \<Rightarrow> nat \<Rightarrow> modem \<Rightarrow> bool \<times> char carray option \<times> modem" where
  "execCommand cfg command timeout buffer bsize s =
     (case readResponse cfg buffer bsize None timeout (println_str command s) of
        (r, b, s') \<Rightarrow> (r = GSMResponseOK, b, s'))"

subsection \<open>Operator selection\<close>

text \<open>A \<^verbatim>\<open>const char*\<close> that may be NULL is an optional string.\<close>

definition setOperator :: "config \<Rightarrow> string option \<Rightarrow> modem \<Rightarrow> bool \<times> modem" where
  "setOperator cfg opr s =
     (if opr = None \<or> the opr = [] then (True, s)
      else
        let s1 = (if the opr = AUTOMATIC_OPERATOR then println_str ''AT+COPS=0'' s
                  else println_char (CHR 0x22) (print_str (the opr) (print_str (''AT+COPS=1,2,'' @ [CHR 0x22]) s)))
        in case readResponse cfg None 0 None COPS_TIMEOUT s1 of
             (r, b, s') \<Rightarrow> (r = GSMResponseOK, s'))"

text \<open>
  The step of \<^verbatim>\<open>connect\<close> that selects the operator:
  \<^verbatim>\<open>if (!setOperator(forceOperator)) { return false; }\<close>. The result is \<open>Inl False\<close> when
  \<^verbatim>\<open>connect\<close> returns false here, and the state with which it goes on otherwise.
\<close>

definition connect_setOperator :: "config \<Rightarrow> string option \<Rightarrow> modem \<Rightarrow> bool + modem" where
  "connect_setOperator cfg forceOperator s =
     (case setOperator cfg forceOperator s of
        (ok, s') \<Rightarrow> if \<not> ok then Inl False else Inr s')"

subsection \<open>Hexadecimal transcoding\<close>

text \<open>The macros work on \<^verbatim>\<open>int\<close>: their arguments are promoted.\<close>

definition NIBBLE_TO_HEX_CHAR :: "int \<Rightarrow> int" where
  "NIBBLE_TO_HEX_CHAR i = (if i \<le> 9 then of_char (CHR ''0'') + i else of_char (CHR ''A'') - 10 + i)"

definition HIGH_NIBBLE :: "int \<Rightarrow> int" where
  "HIGH_NIBBLE i = (drop_bit 4 i) AND 0x0F"

definition LOW_NIBBLE :: "int \<Rightarrow> int" where
  "LOW_NIBBLE i = i AND 0x0F"

definition HEX_CHAR_TO_NIBBLE :: "int \<Rightarrow> int" where
  "HEX_CHAR_TO_NIBBLE c = (if c \<ge> of_char (CHR ''A'') then c - of_char (CHR ''A'') + 0x0A else c - of_char (CHR ''0''))"

definition HEX_PAIR_TO_BYTE :: "int \<Rightarrow> int \<Rightarrow> int" where
  "HEX_PAIR_TO_BYTE h l = push_bit 4 (HEX_CHAR_TO_NIBBLE h) + HEX_CHAR_TO_NIBBLE l"

text \<open>
  The loop of \<^verbatim>\<open>socketSend\<close> that prints the payload, two characters for a byte, and
  the loop of \<^verbatim>\<open>socketReceive\<close> that decodes \<open>bound = retSize * 2\<close> characters of
  \<open>outBuffer\<close> into the caller's buffer. The bound is even and below \<open>2 ^ 32\<close>, so
  \<^verbatim>\<open>i += 2\<close> does not wrap before the loop ends.
\<close>

function hex_print_loop :: "8 word carray \<Rightarrow> nat \<Rightarrow> nat \<Rightarrow> modem \<Rightarrow> modem" where
  "hex_print_loop buffer bsize i s =
     (if i < bsize then
        hex_print_loop buffer bsize (Suc i)
          (print_char (char_of (NIBBLE_TO_HEX_CHAR (LOW_NIBBLE (uint (peek buffer (int i))))))
             (print_char (char_of (NIBBLE_TO_HEX_CHAR (HIGH_NIBBLE (uint (peek buffer (int i)))))) s))
      else s)"
  by pat_completeness auto
termination
  by (relation "measure (\<lambda>(buffer, bsize, i, s). bsize - i)") auto

declare hex_print_loop.simps [simp del]

function hex_decode_loop :: "char carray \<Rightarrow> nat \<Rightarrow> nat \<Rightarrow> 8 word carray \<Rightarrow> 8 word carray" where
  "hex_decode_loop outBuffer bound i buffer =
     (if i < bound then
        hex_decode_loop outBuffer bound (i + 2)
          (poke buffer (int (i div 2))
             (word_of_int (HEX_PAIR_TO_BYTE (of_char (peek outBuffer (int i)))
                                           (of_char (peek outBuffer (int (i + 1)))))))
      else buffer)"
  by pat_completeness auto
termination
  by (relation "measure (\<lambda>(outBuffer, bound, i, buffer). bound - i)") auto

declare hex_decode_loop.simps [simp del]

subsection \<open>The socket manager\<close>

text \<open>
  A local array starts with bytes the program has not written; no function below reads
  one before it has been written, and they are NUL here. \<^verbatim>\<open>uint8_t\<close> session ids are
  8-bit words, the port is a 16-bit word.
\<close>

definition local_array :: "nat \<Rightarrow> char carray" where
  "local_array n = \<lparr>cells = replicate n NUL, outside = (\<lambda>_. NUL), stray = False\<rparr>"

fun store_str :: "char carray \<Rightarrow> int \<Rightarrow> string \<Rightarrow> char carray" where
  "store_str a i [] = poke a i NUL"
| "store_str a i (c # cs) = store_str (poke a i c) (i + 1) cs"

definition socketClose :: "config \<Rightarrow> 8 word \<Rightarrow> bool \<Rightarrow> modem \<Rightarrow> bool \<times> modem" where
  "socketClose cfg socketID async s =
     (let s1 = print_num (unat socketID) (print_str ''AT+USOCL='' s);
          s2 = (if async then println_str '',1'' s1 else println s1);
          s3 = s2\<lparr>socketClosedBit := poke (socketClosedBit s2) (uint socketID) True\<rparr>;
          s4 = s3\<lparr>socketPendingBytes := poke (socketPendingBytes s3) (uint socketID) 0\<rparr>
      in case readResponse cfg None 0 None SOCKET_CLOSE_TIMEOUT s4 of
           (r, b, s') \<Rightarrow> (r = GSMResponseOK, s'))"

definition socketCreate :: "config \<Rightarrow> 16 word \<Rightarrow> Protocols \<Rightarrow> modem \<Rightarrow> int \<times> modem" where
  "socketCreate cfg localPort protocol s =
     (let s1 = print_str (if protocol = UDP then ''17'' else ''6'') (print_str ''AT+USOCR='' s);
          s2 = (if localPort > 0 then println_num (unat localPort) (print_char (CHR '','') s1)
                else println s1)
      in case readResponse cfg (Some (local_array 32)) 32 (Some ''+USOCR: '') (DEFAULT_READ_MS cfg) s2 of
           (r, buffer, s3) \<Rightarrow>
             if r \<noteq> GSMResponseOK then (SOCKET_FAIL, s3)
             else
               let sc = sscanf (c_str (the buffer)) ''%d'';
                   socketID = sint (int_arg (snd sc) 0)
               in if fst sc \<noteq> 1 \<or> socketID < 0 \<or> socketID > int (SOCKET_COUNT cfg)
                  then (SOCKET_FAIL, s3)
                  else (socketID,
                        s3\<lparr>socketClosedBit := poke (socketClosedBit s3) socketID True,
                           socketPendingBytes := poke (socketPendingBytes s3) socketID 0\<rparr>))"

definition socketGetPendingBytes :: "8 word \<Rightarrow> modem \<Rightarrow> 32 word" where
  "socketGetPendingBytes socketID s = peek (socketPendingBytes s) (uint socketID)"

definition socketHasPendingBytes :: "8 word \<Rightarrow> modem \<Rightarrow> bool" where
  "socketHasPendingBytes socketID s = (peek (socketPendingBytes s) (uint socketID) > 0)"

definition socketIsClosed :: "8 word \<Rightarrow> modem \<Rightarrow> bool" where
  "socketIsClosed socketID s = peek (socketClosedBit s) (uint socketID)"

text \<open>
  \<^verbatim>\<open>socketReceive\<close> returns \<open>retSize\<close>, the caller's buffer and the state. The third
  conversion of its \<^verbatim>\<open>sscanf\<close> stores the payload text at the start of \<open>outBuffer\<close>, the
  array the text is read from.
\<close>

definition socketReceive ::
  "config \<Rightarrow> 8 word \<Rightarrow> 8 word carray option \<Rightarrow> nat \<Rightarrow> modem
     \<Rightarrow> nat \<times> 8 word carray option \<times> modem" where
  \<open>socketReceive cfg socketID buffer bsize s =
     (if \<not> socketHasPendingBytes socketID s then (0, buffer, s)
      else
        let bsize' = min bsize (min (SODAQ_N3X_MAX_UDP_BUFFER cfg)
                                   (unat (peek (socketPendingBytes s) (uint socketID))));
            s1 = println_num (unat socketID) (print_str ''AT+USORF='' s)
        in case readResponse cfg (Some (local_array (SODAQ_N3X_MAX_UDP_BUFFER cfg)))
                  (SODAQ_N3X_MAX_UDP_BUFFER cfg) None (DEFAULT_READ_MS cfg) s1 of
             (r, outBuffer, s2) \<Rightarrow>
               if r \<noteq> GSMResponseOK then (0, buffer, s2)
               else
                 let sc = sscanf (c_str (the outBuffer)) ''+USORF: %d,"%*[^"]",%*d,%d,"%[^"]"''
                 in if fst sc \<noteq> 3 then (0, buffer, s2)
                    else
                      let retSocketID = sint (int_arg (snd sc) 0);
                          retSize = int_arg (snd sc) 1;
                          outBuffer' = store_str (the outBuffer) 0 (str_arg (snd sc) 2)
                      in if retSocketID < 0 \<or> retSocketID \<ge> int (SOCKET_COUNT cfg) then (0, buffer, s2)
                         else
                           let s3 = s2\<lparr>socketPendingBytes :=
                                          poke (socketPendingBytes s2) (uint socketID)
                                            (peek (socketPendingBytes s2) (uint socketID) - retSize)\<rparr>
                           in (unat retSize,
                               (if buffer \<noteq> None \<and> bsize' > 0
                                then Some (hex_decode_loop outBuffer' (size_add (unat retSize) (unat retSize)) 0
                                             (the buffer))
                                else buffer),
                               s3))\<close>

definition socketSend ::
  "config \<Rightarrow> 8 word \<Rightarrow> string \<Rightarrow> 16 word \<Rightarrow> 8 word carray \<Rightarrow> nat \<Rightarrow> modem \<Rightarrow> nat \<times> modem" where
  \<open>socketSend cfg socketID remoteHost remotePort buffer bsize s =
     (if bsize > SODAQ_MAX_SEND_MESSAGE_SIZE cfg then (0, s)
      else
        case execCommand cfg ''AT+UDCONF=1,1'' (DEFAULT_READ_MS cfg) None 0 s of
          (ok, b0, s0) \<Rightarrow>
            let s1 = print_str '',"'' (print_num (unat socketID) (print_str ''AT+USOST='' s0));
                s2 = print_num (unat remotePort) (print_str ''",'' (print_str remoteHost s1));
                s3 = print_str '',"'' (print_num bsize (print_char (CHR '','') s2));
                s4 = println_char (CHR ''"'') (hex_print_loop buffer bsize 0 s3)
            in case readResponse cfg (Some (local_array 64)) 64 (Some ''+USOST: '') SOCKET_WRITE_TIMEOUT s4 of
                 (r, outBuffer, s5) \<Rightarrow>
                   if r \<noteq> GSMResponseOK then (0, s5)
                   else
                     let sc = sscanf (c_str (the outBuffer)) ''%d,%d'';
                         retSocketID = sint (int_arg (snd sc) 0);
                         sentLength = sint (int_arg (snd sc) 1)
                     in if fst sc \<noteq> 2 \<or> retSocketID < 0 \<or> retSocketID > int (SOCKET_COUNT cfg)
                        then (0, s5)
                        else (to_size sentLength, s5))\<close>

subsection \<open>The state after construction\<close>

text \<open>
  The constructor marks every session closed with no pending bytes, and \<^verbatim>\<open>initBuffer\<close>
  allocates the input buffer. \<open>initial_modem n q\<close> is that state for \<open>n\<close> sessions, with
  \<open>q\<close> the bytes the modem is going to send.
\<close>

definition initial_modem :: "nat \<Rightarrow> (nat \<times> char) list \<Rightarrow> modem" where
  "initial_modem n q =
     \<lparr>now = 0, rx = q, tx = [], appendCommand = False,
      inputBuffer = \<lparr>cells = replicate inputBufferSize NUL, outside = (\<lambda>_. NUL), stray = False\<rparr>,
      socketClosedBit = \<lparr>cells = replicate n True, outside = (\<lambda>_. False), stray = False\<rparr>,
      socketPendingBytes = \<lparr>cells = replicate n 0, outside = (\<lambda>_. 0), stray = False\<rparr>\<rparr>"

definition example_config :: config where
  "example_config =
     \<lparr>SOCKET_COUNT = 7, SODAQ_N3X_MAX_UDP_BUFFER = 512, SODAQ_MAX_SEND_MESSAGE_SIZE = 512,
      DEFAULT_READ_MS = 5000\<rparr>"

text \<open>Lines that are in the receive queue since time \<open>t\<close>, each with its terminator.\<close>

definition queued :: "nat \<Rightarrow> string list \<Rightarrow> (nat \<times> char) list" where
  "queued t ls = map (Pair t) (concat (map (\<lambda>l. l @ SODAQ_GSM_TERMINATOR) ls))"

subsection \<open>What the hexadecimal loops compute\<close>

text \<open>
  The text of a payload as the specification has it, two upper-case hexadecimal digits
  for a byte, and the characters that the loop of \<^verbatim>\<open>socketSend\<close> appends to the
  transmit stream for the payload \<open>bs\<close>.
\<close>

definition hex_pair :: "8 word \<Rightarrow> string" where
  "hex_pair b = [char_of (NIBBLE_TO_HEX_CHAR (HIGH_NIBBLE (uint b))),
                 char_of (NIBBLE_TO_HEX_CHAR (LOW_NIBBLE (uint b)))]"

definition hex_text :: "8 word list \<Rightarrow> string" where
  "hex_text bs = concat (map hex_pair bs)"

definition sent_hex :: "8 word list \<Rightarrow> modem \<Rightarrow> string" where
  "sent_hex bs s =
     drop (length (tx s))
       (tx (hex_print_loop \<lparr>cells = bs, outside = (\<lambda>_. 0), stray = False\<rparr> (length bs) 0 s))"

text \<open>An array of \<open>n\<close> cells that all hold \<open>v\<close>, as does the memory around it.\<close>

definition filled_array :: "nat \<Rightarrow> 'a \<Rightarrow> 'a carray" where
  "filled_array n v = \<lparr>cells = replicate n v, outside = (\<lambda>_. v), stray = False\<rparr>"

text \<open>A state in which a notification has left \<open>v\<close> pending bytes for session \<open>i\<close>.\<close>

definition with_pending :: "int \<Rightarrow> 32 word \<Rightarrow> modem \<Rightarrow> modem" where
  "with_pending i v s = s\<lparr>socketPendingBytes := poke (socketPendingBytes s) i v\<rparr>"

subsection \<open>Notions used in the statements\<close>

text \<open>
  Writing a list of values to consecutive cells; the driver's state once \<open>readLn\<close> has
  framed the line \<open>l\<close> in the input buffer, with \<open>q\<close> left in the receive queue; and the
  fact that \<^verbatim>\<open>initBuffer\<close> has allocated the input buffer.
\<close>

fun pokes :: "'a carray \<Rightarrow> int \<Rightarrow> 'a list \<Rightarrow> 'a carray" where
  "pokes a i [] = a"
| "pokes a i (x # xs) = pokes (poke a i x) (i + 1) xs"

definition after_line :: "string \<Rightarrow> (nat \<times> char) list \<Rightarrow> modem \<Rightarrow> modem" where
  "after_line l q s =
     s\<lparr>rx := q,
       inputBuffer := (inputBuffer s)\<lparr>cells := l @ NUL # NUL # drop (length l + 2) (cells (inputBuffer s))\<rparr>\<rparr>"

definition input_ready :: "modem \<Rightarrow> bool" where
  "input_ready s = (length (cells (inputBuffer s)) = inputBufferSize)"

text \<open>\<open>occurs pat xs\<close>: the text \<open>pat\<close> stands somewhere in \<open>xs\<close>.\<close>

fun occurs :: "string \<Rightarrow> string \<Rightarrow> bool" where
  "occurs pat [] = (pat = [])"
| "occurs pat (x # xs) = (startsWith pat (x # xs) \<or> occurs pat xs)"

text \<open>
  A line that the response matcher takes for payload when no prefix is asked for: it is
  not empty, has no LF or NUL in it, fits the input buffer, is neither an echo nor a final
  line, and \<open>checkURC\<close> does not handle it.
\<close>

definition plain_line :: "config \<Rightarrow> modem \<Rightarrow> string \<Rightarrow> bool" where
  "plain_line cfg s l =
     (l \<noteq> [] \<and> LF \<notin> set l \<and> NUL \<notin> set l \<and> length l \<le> 1021 \<and>
      \<not> startsWith STR_AT l \<and> \<not> startsWith STR_RESPONSE_OK l \<and>
      \<not> startsWith STR_RESPONSE_ERROR l \<and> \<not> startsWith STR_RESPONSE_CME_ERROR l \<and>
      \<not> startsWith STR_RESPONSE_CMS_ERROR l \<and> \<not> fst (checkURC cfg l s))"

subsection \<open>The shapes of a notification\<close>

text \<open>
  The specification lists four notifications, each a literal tag followed by one or two
  integer fields with a comma between them. An integer field is read here as optional
  white space, an optional sign and at least one decimal digit; \<open>number_field\<close> gives
  the text after such a field. Whatever follows the last field is not looked at.
\<close>

definition number_field :: "string \<Rightarrow> string option" where
  "number_field inp =
     (let r = dropWhile isspace inp;
          r' = (if r \<noteq> [] \<and> (hd r = CHR ''-'' \<or> hd r = CHR ''+'') then tl r else r)
      in if takeWhile isdigit r' = [] then None else Some (dropWhile isdigit r'))"

definition one_number :: "string \<Rightarrow> string \<Rightarrow> bool" where
  "one_number tag line = (startsWith tag line \<and> number_field (drop (length tag) line) \<noteq> None)"

definition two_numbers :: "string \<Rightarrow> string \<Rightarrow> bool" where
  "two_numbers tag line =
     (startsWith tag line \<and>
      (case number_field (drop (length tag) line) of
         None \<Rightarrow> False
       | Some r \<Rightarrow> r \<noteq> [] \<and> hd r = CHR '','' \<and> number_field (tl r) \<noteq> None))"

definition recognized_notification :: "string \<Rightarrow> bool" where
  "recognized_notification line =
     (two_numbers ''+UFOTAS:'' line \<or> two_numbers ''+UUSORF:'' line \<or>
      one_number ''+UUSOCL:'' line \<or> one_number ''+CSCON:'' line)"

subsection \<open>What a call receives\<close>

text \<open>
  The bytes that leave the receive queue between a state and a later state of the same
  run.
\<close>

definition received :: "modem \<Rightarrow> modem \<Rightarrow> string" where
  "received s s' = take (length (rx s) - length (rx s')) (map snd (rx s))"

text \<open>
  Two states in which \<open>readResponse\<close> sees the same input: the clock, the receive queue
  and the input buffer are the same.
\<close>

definition same_input :: "modem \<Rightarrow> modem \<Rightarrow> bool" where
  "same_input s u = (now s = now u \<and> rx s = rx u \<and> inputBuffer s = inputBuffer u)"

text \<open>
  A line on which \<open>readResponse\<close> returns, and a line that the framer hands on as it was
  sent: it has no LF or NUL in it and fits the input buffer.
\<close>

definition final_line :: "string \<Rightarrow> bool" where
  "final_line l =
     (startsWith STR_RESPONSE_OK l \<or> startsWith STR_RESPONSE_ERROR l \<or>
      startsWith STR_RESPONSE_CME_ERROR l \<or> startsWith STR_RESPONSE_CMS_ERROR l)"

definition whole_line :: "string \<Rightarrow> bool" where
  "whole_line l = (LF \<notin> set l \<and> NUL \<notin> set l \<and> length l \<le> 1021)"

text \<open>
  The session id and the count of a \<^verbatim>\<open>+UUSORF\<close> line as \<open>checkURC\<close> reads them, and the
  lines that announce data for the session \<open>i\<close>.
\<close>

definition arrival_id :: "string \<Rightarrow> int" where
  "arrival_id l = sint (int_arg (snd (sscanf l ''+UUSORF: %d,%d'')) 0)"

definition arrival_count :: "string \<Rightarrow> 32 word" where
  "arrival_count l = int_arg (snd (sscanf l ''+UUSORF: %d,%d'')) 1"

definition data_arrival :: "int \<Rightarrow> string \<Rightarrow> bool" where
  "data_arrival i l = (two_numbers ''+UUSORF:'' l \<and> arrival_id l = i)"

text \<open>
  What \<open>socketReceive\<close> reads from a line of the reply to \<^verbatim>\<open>AT+USORF\<close>: the number of
  values stored with the values, the session id and the length. \<open>reply_ok\<close> says that all
  three values were stored and that the id is a session.
\<close>

definition reply_fields :: "string \<Rightarrow> int \<times> sval list" where
  "reply_fields l = sscanf l ''+USORF: %d,\"%*[^\"]\",%*d,%d,\"%[^\"]\"''"

definition reply_id :: "string \<Rightarrow> int" where
  "reply_id l = sint (int_arg (snd (reply_fields l)) 0)"

definition reply_size :: "string \<Rightarrow> 32 word" where
  "reply_size l = int_arg (snd (reply_fields l)) 1"

definition reply_ok :: "config \<Rightarrow> string \<Rightarrow> bool" where
  "reply_ok cfg l = (fst (reply_fields l) = 3 \<and> 0 \<le> reply_id l \<and> reply_id l < int (SOCKET_COUNT cfg))"

section \<open>Properties\<close>

subsection \<open>Arrays and what each function leaves alone\<close>

lemma in_cells_poke [simp]: "in_cells (poke a j v) i = in_cells a i"
  by (simp add: poke_def in_cells_def)

lemma length_cells_poke [simp]: "length (cells (poke a i v)) = length (cells a)"
  by (simp add: poke_def)

lemma peek_poke: "peek (poke a j v) i = (if i = j then v else peek a i)"
  by (auto simp: peek_def poke_def in_cells_def nth_list_update)

lemma stray_poke: "stray (poke a i v) = (stray a \<or> \<not> in_cells a i)"
  by (simp add: poke_def)

lemma timedRead_frame:
  "timedRead timeout s = (c, s') \<Longrightarrow> s' = s\<lparr>now := now s', rx := rx s'\<rparr>"
  by (auto simp: timedRead_def split: list.splits if_splits)

lemma readBytesUntil_loop_frame:
  "readBytesUntil_loop terminator timeout lengthN index buffer s = (k, b', s') \<Longrightarrow>
     s' = s\<lparr>now := now s', rx := rx s'\<rparr>"
proof (induction terminator timeout lengthN index buffer s rule: readBytesUntil_loop.induct)
  case (1 terminator timeout lengthN index buffer s)
  show ?case
  proof (cases "index < lengthN")
    case False
    with "1.prems" show ?thesis by (simp add: readBytesUntil_loop.simps)
  next
    case True
    obtain c s1 where tr: "timedRead timeout s = (c, s1)" by (cases "timedRead timeout s")
    note f1 = timedRead_frame [OF tr]
    show ?thesis
    proof (cases "c < 0 \<or> c = of_char terminator")
      case True
      with \<open>index < lengthN\<close> tr "1.prems" have "s' = s1"
        by (simp add: readBytesUntil_loop.simps)
      with f1 show ?thesis by simp
    next
      case False
      with \<open>index < lengthN\<close> tr "1.prems"
      have "readBytesUntil_loop terminator timeout lengthN (Suc index)
              (poke buffer (int index) (char_of c)) s1 = (k, b', s')"
        by (simp add: readBytesUntil_loop.simps)
      from "1.IH" [OF \<open>index < lengthN\<close> tr [symmetric] False this]
      have "s' = s1\<lparr>now := now s', rx := rx s'\<rparr>" .
      then have "s' = s\<lparr>now := now s1, rx := rx s1\<rparr>\<lparr>now := now s', rx := rx s'\<rparr>"
        using f1 by simp
      then show ?thesis by simp
    qed
  qed
qed

lemma readLn_frame:
  "readLn buffer bsize timeout s = (len, b, s') \<Longrightarrow> s' = s\<lparr>now := now s', rx := rx s'\<rparr>"
  by (auto simp: readLn_def readBytesUntil_def Let_def split: prod.splits if_splits
           dest: readBytesUntil_loop_frame)

lemma checkURC_frame:
  "snd (checkURC cfg line s) =
     s\<lparr>socketClosedBit := socketClosedBit (snd (checkURC cfg line s)),
       socketPendingBytes := socketPendingBytes (snd (checkURC cfg line s))\<rparr>"
  by (simp add: checkURC_def Let_def)

lemma readResponse_line_frame:
  assumes "readResponse_line cfg outMaxSize prefix count (ob, n, s) = (r, ob', n', s')"
  shows "s' = s\<lparr>socketClosedBit := socketClosedBit s', socketPendingBytes := socketPendingBytes s'\<rparr>"
proof -
  have "s' = s \<or> s' = snd (checkURC cfg (c_str (inputBuffer s)) s)"
    using assms
    by (auto simp: readResponse_line_def Let_def split: if_splits prod.splits)
  then show ?thesis
    using checkURC_frame [of cfg "c_str (inputBuffer s)" s] by auto
qed

lemma readResponse_body_tx:
  assumes "readResponse_body cfg outMaxSize prefix (ob, n, s) = (r, ob', n', s')"
  shows "tx s' = tx s \<and> appendCommand s' = appendCommand s"
proof -
  obtain len ib s0 where l: "readLn (inputBuffer s) inputBufferSize 250 s = (len, ib, s0)"
    by (cases "readLn (inputBuffer s) inputBufferSize 250 s")
  from assms l have
    "readResponse_line cfg outMaxSize prefix (as_int len) (ob, n, s0\<lparr>inputBuffer := ib\<rparr>) = (r, ob', n', s')"
    by (simp add: readResponse_body_def)
  from readResponse_line_frame [OF this] readLn_frame [OF l]
  have "tx s' = tx (s0\<lparr>inputBuffer := ib\<rparr>)" "appendCommand s' = appendCommand (s0\<lparr>inputBuffer := ib\<rparr>)"
       "tx s0 = tx s" "appendCommand s0 = appendCommand s"
    by (metis modem.select_convs modem.surjective modem.update_convs)+
  then show ?thesis by simp
qed

lemma readResponse_loop_tx:
  "readResponse_loop cfg outMaxSize prefix timeout from_ms st = (r, ob', s') \<Longrightarrow>
     tx s' = tx (snd (snd st)) \<and> appendCommand s' = appendCommand (snd (snd st))"
proof (induction cfg outMaxSize prefix timeout from_ms st rule: readResponse_loop.induct)
  case (1 cfg outMaxSize prefix timeout from_ms st)
  obtain ob n s where st: "st = (ob, n, s)" by (cases st)
  show ?case
  proof (cases "is_timedout from_ms timeout s")
    case True
    with "1.prems" st show ?thesis by (simp add: readResponse_loop.simps)
  next
    case False
    obtain x ob1 n1 s1 where b: "readResponse_body cfg outMaxSize prefix (ob, n, s) = (x, ob1, n1, s1)"
      by (cases "readResponse_body cfg outMaxSize prefix (ob, n, s)")
    note t1 = readResponse_body_tx [OF b]
    show ?thesis
    proof (cases x)
      case (Some a)
      with False b "1.prems" st have "s' = s1" by (simp add: readResponse_loop.simps)
      with t1 st show ?thesis by simp
    next
      case None
      with False b "1.prems" st
      have "readResponse_loop cfg outMaxSize prefix timeout from_ms (ob1, n1, s1) = (r, ob', s')"
        by (simp add: readResponse_loop.simps)
      from "1.IH" [OF _ _ _ this] False b None st t1 show ?thesis by simp
    qed
  qed
qed

lemma readResponse_tx:
  "readResponse cfg outBuffer outMaxSize prefix timeout s = (r, ob', s') \<Longrightarrow>
     tx s' = tx s \<and> appendCommand s' = appendCommand s"
  by (auto simp: readResponse_def dest: readResponse_loop_tx)

lemma tx_print_str [simp]: "tx (print_str c s) = tx s @ c"
  by (simp add: print_str_def writeProlog_def)

lemma tx_print_num [simp]: "tx (print_num n s) = tx s @ dec n"
  by (simp add: print_num_def writeProlog_def)

lemma tx_println [simp]: "tx (println s) = tx s @ [CR]"
  by (simp add: println_def print_char_def writeProlog_def)


subsection \<open>Hexadecimal round trip\<close>

lemma nibble_round_trip:
  assumes "0 \<le> i" "i < 16"
  shows "HEX_CHAR_TO_NIBBLE (of_char (char_of (NIBBLE_TO_HEX_CHAR i) :: char)) = i"
proof (cases "i \<le> 9")
  case True
  with assms have "(48 + i) mod 256 = 48 + i" by simp
  with True show ?thesis
    by (simp add: HEX_CHAR_TO_NIBBLE_def NIBBLE_TO_HEX_CHAR_def)
next
  case False
  with assms have "(55 + i) mod 256 = 55 + i" by simp
  with False show ?thesis
    by (simp add: HEX_CHAR_TO_NIBBLE_def NIBBLE_TO_HEX_CHAR_def)
qed

lemma and_15_int: "(x :: int) AND 15 = x mod 16"
proof -
  have "(15::int) = mask 4" by (simp add: mask_eq_exp_minus_1)
  then have "x AND 15 = take_bit 4 x" by (simp only: take_bit_eq_mask)
  then show ?thesis by (simp add: take_bit_eq_mod)
qed

lemma HIGH_NIBBLE_uint: "HIGH_NIBBLE (uint (b :: 8 word)) = uint b div 16"
proof -
  have "uint b div 16 < 16" using uint_lt2p [of b] by simp
  moreover have "0 \<le> uint b div 16" by (simp add: pos_imp_zdiv_nonneg_iff)
  ultimately have "(uint b div 16) mod 16 = uint b div 16" by simp
  then show ?thesis
    by (simp add: HIGH_NIBBLE_def drop_bit_eq_div and_15_int)
qed

lemma LOW_NIBBLE_uint: "LOW_NIBBLE (uint (b :: 8 word)) = uint b mod 16"
  by (simp add: LOW_NIBBLE_def and_15_int)

lemma byte_round_trip:
  "word_of_int (HEX_PAIR_TO_BYTE
     (of_char (char_of (NIBBLE_TO_HEX_CHAR (HIGH_NIBBLE (uint b))) :: char))
     (of_char (char_of (NIBBLE_TO_HEX_CHAR (LOW_NIBBLE (uint b))) :: char))) = (b :: 8 word)"
proof -
  have h: "0 \<le> uint b div 16" "uint b div 16 < 16" using uint_lt2p [of b] by (simp_all add: pos_imp_zdiv_nonneg_iff)
  have l: "0 \<le> uint b mod 16" "uint b mod 16 < 16" by simp_all
  have "HEX_PAIR_TO_BYTE
     (of_char (char_of (NIBBLE_TO_HEX_CHAR (HIGH_NIBBLE (uint b))) :: char))
     (of_char (char_of (NIBBLE_TO_HEX_CHAR (LOW_NIBBLE (uint b))) :: char)) = uint b"
    unfolding HEX_PAIR_TO_BYTE_def HIGH_NIBBLE_uint LOW_NIBBLE_uint
      nibble_round_trip [OF h] nibble_round_trip [OF l]
    by (simp add: push_bit_eq_mult)
  then show ?thesis by simp
qed

lemma hex_pair_round_trip:
  "word_of_int (HEX_PAIR_TO_BYTE (of_char (hex_pair b ! 0)) (of_char (hex_pair b ! 1))) = b"
proof -
  have "hex_pair b ! 0 = char_of (NIBBLE_TO_HEX_CHAR (HIGH_NIBBLE (uint b)))"
       "hex_pair b ! 1 = char_of (NIBBLE_TO_HEX_CHAR (LOW_NIBBLE (uint b)))"
    by (simp_all add: hex_pair_def)
  then show ?thesis by (simp only: byte_round_trip)
qed

lemma peek_cells [simp]: "i < length xs \<Longrightarrow> peek \<lparr>cells = xs, outside = out, stray = st\<rparr> (int i) = xs ! i"
  by (simp add: peek_def in_cells_def)

lemma tx_print_char [simp]: "tx (print_char c s) = tx s @ [c]"
  by (simp add: print_char_def writeProlog_def)

lemma hex_print_loop_tx:
  "i \<le> length bs \<Longrightarrow>
   tx (hex_print_loop \<lparr>cells = bs, outside = out, stray = st\<rparr> (length bs) i s) = tx s @ hex_text (drop i bs)"
proof (induction "length bs - i" arbitrary: i s)
  case 0
  then show ?case by (simp add: hex_print_loop.simps hex_text_def)
next
  case (Suc n)
  then have lt: "i < length bs" by simp
  then have d: "drop i bs = bs ! i # drop (Suc i) bs" by (simp add: Cons_nth_drop_Suc)
  have "n = length bs - Suc i" using Suc.hyps(2) by simp
  from Suc.hyps(1) [OF this] lt
  show ?case
    by (subst hex_print_loop.simps) (simp add: d hex_text_def hex_pair_def)
qed

lemma hex_text_length [simp]: "length (hex_text bs) = 2 * length bs"
  by (induction bs) (simp_all add: hex_text_def hex_pair_def)

lemma hex_text_nth:
  "j < length bs \<Longrightarrow> hex_text bs ! (2 * j) = hex_pair (bs ! j) ! 0 \<and> hex_text bs ! (2 * j + 1) = hex_pair (bs ! j) ! 1"
proof (induction bs arbitrary: j)
  case Nil
  then show ?case by simp
next
  case (Cons b bs)
  show ?case
  proof (cases j)
    case 0
    then show ?thesis by (simp add: hex_text_def hex_pair_def)
  next
    case (Suc k)
    with Cons.prems have "k < length bs" by simp
    from Cons.IH [OF this] Suc show ?thesis
      by (simp add: hex_text_def hex_pair_def)
  qed
qed

lemma hex_decode_loop_cells:
  assumes "j \<le> length bs" "length bs \<le> length (cells buffer)"
  shows "hex_decode_loop \<lparr>cells = hex_text bs @ rest, outside = out, stray = st\<rparr> (2 * length bs) (2 * j) buffer
           = buffer\<lparr>cells := take j (cells buffer) @ drop j bs @ drop (length bs) (cells buffer)\<rparr>"
  using assms
proof (induction "length bs - j" arbitrary: j buffer)
  case 0
  then show ?case by (simp add: hex_decode_loop.simps)
next
  case (Suc n)
  then have lt: "j < length bs" by simp
  let ?ob = "\<lparr>cells = hex_text bs @ rest, outside = out, stray = st\<rparr>"
  have p0: "peek ?ob (int (2 * j)) = hex_pair (bs ! j) ! 0"
    using lt hex_text_nth [OF lt] by (simp add: nth_append del: of_nat_mult)
  have p1: "peek ?ob (int (2 * j + 1)) = hex_pair (bs ! j) ! 1"
    using lt hex_text_nth [OF lt] by (simp add: nth_append del: of_nat_mult of_nat_add of_nat_Suc)
  have byte: "word_of_int (HEX_PAIR_TO_BYTE (of_char (peek ?ob (int (2 * j)))) (of_char (peek ?ob (int (2 * j + 1))))) = bs ! j"
    unfolding p0 p1 by (rule hex_pair_round_trip)
  let ?b1 = "poke buffer (int j) (bs ! j)"
  have b1: "?b1 = buffer\<lparr>cells := (cells buffer)[j := bs ! j]\<rparr>"
    using lt Suc.prems by (simp add: poke_def in_cells_def)
  have n: "n = length bs - Suc j" using Suc.hyps(2) by simp
  have len1: "length bs \<le> length (cells ?b1)" using Suc.prems by (simp add: b1)
  have step: "hex_decode_loop ?ob (2 * length bs) (2 * j) buffer
            = hex_decode_loop ?ob (2 * length bs) (2 * Suc j) ?b1"
  proof -
    have c: "2 * j < 2 * length bs" using lt by simp
    have a1: "2 * j div 2 = j" and a2: "2 * j + 2 = 2 * Suc j" by simp_all
    have "hex_decode_loop ?ob (2 * length bs) (2 * j) buffer
        = hex_decode_loop ?ob (2 * length bs) (2 * j + 2)
            (poke buffer (int (2 * j div 2))
               (word_of_int (HEX_PAIR_TO_BYTE (of_char (peek ?ob (int (2 * j))))
                                             (of_char (peek ?ob (int (2 * j + 1)))))))"
      by (subst hex_decode_loop.simps) (simp only: c if_True)
    then show ?thesis by (simp only: byte a1 a2)
  qed
  have "take (Suc j) ((cells buffer)[j := bs ! j]) @ drop (Suc j) bs @ drop (length bs) ((cells buffer)[j := bs ! j])
       = take j (cells buffer) @ drop j bs @ drop (length bs) (cells buffer)"
    using lt Suc.prems by (simp add: take_Suc_conv_app_nth Cons_nth_drop_Suc)
  with Suc.hyps(1) [OF n _ len1] lt step show ?case
    by (simp add: b1)
qed

text \<open>
  Claim C6. Whatever the payload \<open>bs\<close> and whatever the state in which it is sent, the
  characters that the loop of \<^verbatim>\<open>socketSend\<close> writes for \<open>bs\<close>, decoded by the loop of
  \<^verbatim>\<open>socketReceive\<close> from the start of its scratch buffer into a buffer of \<open>length bs\<close>
  bytes, give back \<open>bs\<close>, and no byte is written outside that buffer. The length of the
  payload is not restricted.
\<close>

theorem hex_round_trip:
  "cells (hex_decode_loop \<lparr>cells = sent_hex bs s @ rest, outside = out, stray = False\<rparr> (2 * length bs) 0
            \<lparr>cells = replicate (length bs) 0, outside = out', stray = False\<rparr>) = bs \<and>
   \<not> stray (hex_decode_loop \<lparr>cells = sent_hex bs s @ rest, outside = out, stray = False\<rparr> (2 * length bs) 0
            \<lparr>cells = replicate (length bs) 0, outside = out', stray = False\<rparr>)"
  using hex_decode_loop_cells [of 0 bs "\<lparr>cells = replicate (length bs) 0, outside = out', stray = False\<rparr>" rest out False]
  by (simp add: sent_hex_def hex_print_loop_tx)

theorem hex_round_trip_witness:
  "cells (hex_decode_loop
            \<lparr>cells = sent_hex [0x00, 0x9F, 0xA5, 0xFF] (initial_modem 7 []) @ [NUL],
               outside = (\<lambda>_. NUL), stray = False\<rparr> (2 * length [0x00, 0x9F, 0xA5, 0xFF :: 8 word]) 0
            \<lparr>cells = replicate (length [0x00, 0x9F, 0xA5, 0xFF :: 8 word]) 0, outside = (\<lambda>_. 0), stray = False\<rparr>)
     = [0x00, 0x9F, 0xA5, 0xFF]"
  using hex_round_trip [of "[0x00, 0x9F, 0xA5, 0xFF]" "initial_modem 7 []" "[NUL]" "\<lambda>_. NUL" "\<lambda>_. 0"]
  by simp

subsection \<open>Operator selection without an operator\<close>

text \<open>
  Claim C10. Called with NULL or with the empty string, \<^verbatim>\<open>setOperator\<close> returns true
  and leaves the whole state as it was: nothing is written to the modem, nothing is
  read, no time passes. The step of \<^verbatim>\<open>connect\<close> that calls it therefore never returns
  false for such an operator, and \<^verbatim>\<open>connect\<close> goes on in the same state.
\<close>

theorem setOperator_no_operator:
  "setOperator cfg None s = (True, s) \<and> setOperator cfg (Some []) s = (True, s) \<and>
   tx (snd (setOperator cfg None s)) = tx s \<and> tx (snd (setOperator cfg (Some [])  s)) = tx s \<and>
   connect_setOperator cfg None s = Inr s \<and> connect_setOperator cfg (Some []) s = Inr s"
  by (simp add: setOperator_def connect_setOperator_def)

theorem setOperator_no_operator_witness:
  "setOperator example_config None (initial_modem 7 []) = (True, initial_modem 7 []) \<and>
   connect_setOperator example_config (Some []) (initial_modem 7 []) = Inr (initial_modem 7 [])"
  using setOperator_no_operator [of example_config "initial_modem 7 []"] by simp

subsection \<open>The line framer\<close>

lemma pokes_append: "pokes a i (xs @ ys) = pokes (pokes a i xs) (i + int (length xs)) ys"
  by (induction xs arbitrary: a i) (simp_all add: add.assoc)

lemma length_cells_pokes [simp]: "length (cells (pokes a i xs)) = length (cells a)"
  by (induction xs arbitrary: a i) simp_all

lemma pokes_in_range:
  "i + length xs \<le> length (cells a) \<Longrightarrow>
     pokes a (int i) xs = a\<lparr>cells := take i (cells a) @ xs @ drop (i + length xs) (cells a)\<rparr>"
proof (induction xs arbitrary: a i)
  case Nil
  then show ?case by simp
next
  case (Cons x xs)
  then have lt: "i < length (cells a)" by simp
  have p: "poke a (int i) x = a\<lparr>cells := (cells a)[i := x]\<rparr>"
    using lt by (simp add: poke_def in_cells_def)
  have "Suc i + length xs \<le> length (cells (poke a (int i) x))" using Cons.prems by simp
  from Cons.IH [OF this]
  have ih: "pokes (poke a (int i) x) (int (Suc i)) xs =
      (poke a (int i) x)\<lparr>cells := take (Suc i) (cells (poke a (int i) x)) @ xs @
         drop (Suc i + length xs) (cells (poke a (int i) x))\<rparr>" .
  have "pokes a (int i) (x # xs) = pokes (poke a (int i) x) (int (Suc i)) xs"
    by (simp add: add.commute)
  also note ih
  finally show ?case
    using lt by (simp add: p take_Suc_conv_app_nth)
qed

lemma timedRead_bytes:
  "timedRead timeout s = (c, s') \<Longrightarrow>
     (c = - 1 \<and> rx s' = rx s) \<or> (\<exists>t ch. rx s = (t, ch) # rx s' \<and> c = of_char ch)"
  by (auto simp: timedRead_def split: list.splits if_splits)

lemma of_char_eq_int: "((of_char a :: int) = of_char b) = (a = b)"
  by (metis char_of_char)

lemma readBytesUntil_loop_bytes:
  "readBytesUntil_loop terminator timeout lengthN index buffer s = (k, b', s') \<Longrightarrow>
     \<exists>bs. k = index + length bs \<and> (index \<le> lengthN \<longrightarrow> k \<le> lengthN) \<and>
          b' = pokes buffer (int index) bs \<and> terminator \<notin> set bs \<and>
          (map snd (rx s) = bs @ map snd (rx s') \<or> map snd (rx s) = bs @ terminator # map snd (rx s'))"
proof (induction terminator timeout lengthN index buffer s rule: readBytesUntil_loop.induct)
  case (1 terminator timeout lengthN index buffer s)
  show ?case
  proof (cases "index < lengthN")
    case False
    with "1.prems" have "k = index" "b' = buffer" "s' = s" by (simp_all add: readBytesUntil_loop.simps)
    then show ?thesis by (intro exI [of _ "[]"]) simp
  next
    case True
    obtain c s1 where tr: "timedRead timeout s = (c, s1)" by (cases "timedRead timeout s")
    show ?thesis
    proof (cases "c < 0 \<or> c = of_char terminator")
      case True
      with \<open>index < lengthN\<close> tr "1.prems" have e: "k = index" "b' = buffer" "s' = s1"
        by (simp_all add: readBytesUntil_loop.simps)
      from timedRead_bytes [OF tr] True
      have "map snd (rx s) = map snd (rx s1) \<or> map snd (rx s) = terminator # map snd (rx s1)"
        by (auto simp: of_char_eq_int of_char_nonneg)
      with e \<open>index < lengthN\<close> show ?thesis by (intro exI [of _ "[]"]) auto
    next
      case False
      with timedRead_bytes [OF tr] obtain t ch where
        ch: "rx s = (t, ch) # rx s1" "c = of_char ch" "ch \<noteq> terminator"
        by (auto simp: of_char_eq_int)
      from False \<open>index < lengthN\<close> tr "1.prems"
      have "readBytesUntil_loop terminator timeout lengthN (Suc index)
              (poke buffer (int index) (char_of c)) s1 = (k, b', s')"
        by (simp add: readBytesUntil_loop.simps)
      from "1.IH" [OF \<open>index < lengthN\<close> tr [symmetric] False this]
      obtain bs where bs: "k = Suc index + length bs" "Suc index \<le> lengthN \<longrightarrow> k \<le> lengthN"
        "b' = pokes (poke buffer (int index) (char_of c)) (int (Suc index)) bs" "terminator \<notin> set bs"
        "map snd (rx s1) = bs @ map snd (rx s') \<or> map snd (rx s1) = bs @ terminator # map snd (rx s')"
        by blast
      show ?thesis
        using bs ch \<open>index < lengthN\<close>
        by (intro exI [of _ "ch # bs"]) (auto simp: add.commute [of 1])
    qed
  qed
qed


lemma size_sub_1:
  assumes "0 < k" "k < 2 ^ 32"
  shows "size_sub k (Suc 0) = k - 1"
proof -
  from assms obtain j where j: "k = Suc j" by (cases k) auto
  with assms have "j < 4294967296" by simp
  then have "(4294967296 + j) mod 4294967296 = j" by simp
  with j show ?thesis by (simp add: size_sub_def)
qed

lemma size_sub_0_1: "size_sub 0 (Suc 0) = 4294967295"
  by (simp add: size_sub_def)

lemma as_int_small: "n < 2 ^ 31 \<Longrightarrow> as_int n = int n"
  by (simp add: as_int_def)

lemma as_int_max: "as_int 4294967295 = - 1"
  by (simp add: as_int_def)

lemma readLn_unfold:
  "readLn buffer bsize timeout s =
     (case readBytesUntil LF buffer (size_sub bsize (Suc 0)) timeout s of
        (len, b, s') \<Rightarrow>
          (if peek b (as_int (size_sub len (Suc 0))) = CR then size_sub len (Suc 0) else len,
           poke b (as_int (if peek b (as_int (size_sub len (Suc 0))) = CR then size_sub len (Suc 0) else len)) NUL,
           s'))"
  by (simp add: readLn_def SODAQ_GSM_TERMINATOR_def SODAQ_GSM_TERMINATOR_LEN_def Let_def cong: if_cong)

text \<open>What \<open>readLn\<close> does, for any stream: \<open>bs\<close> are the bytes stored before the loop ended.\<close>

lemma readLn_shape:
  assumes "readLn buffer bsize timeout s = (len, b, s')" "0 < bsize" "bsize < 2 ^ 32"
  obtains bs b1 where
    "length bs \<le> bsize - 1" "LF \<notin> set bs"
    "map snd (rx s) = bs @ map snd (rx s') \<or> map snd (rx s) = bs @ LF # map snd (rx s')"
    "b1 = (if length bs < bsize - 1 then poke (pokes buffer 0 bs) (int (length bs)) NUL
           else pokes buffer 0 bs)"
    "len = (if peek b1 (as_int (size_sub (length bs) (Suc 0))) = CR
            then size_sub (length bs) (Suc 0) else length bs)"
    "b = poke b1 (as_int len) NUL"
proof -
  have n: "size_sub bsize (Suc 0) = bsize - 1" using assms by (simp add: size_sub_1)
  obtain k b1 s1 where r: "readBytesUntil LF buffer (bsize - 1) timeout s = (k, b1, s1)"
    by (metis prod_cases3)
  from assms(1) r have res:
    "s' = s1"
    "len = (if peek b1 (as_int (size_sub k (Suc 0))) = CR then size_sub k (Suc 0) else k)"
    "b = poke b1 (as_int len) NUL"
    by (auto simp: readLn_unfold n)
  show ?thesis
  proof (cases "bsize - 1 < 1")
    case True
    with r have "k = 0" "b1 = buffer" "s1 = s" by (simp_all add: readBytesUntil_def)
    with res True show ?thesis by (intro that [of "[]" buffer]) simp_all
  next
    case False
    obtain k0 b0 s0 where l: "readBytesUntil_loop LF timeout (bsize - 1) 0 buffer s = (k0, b0, s0)"
      by (metis prod_cases3)
    from readBytesUntil_loop_bytes [OF l] obtain bs where bs:
      "k0 = length bs" "k0 \<le> bsize - 1" "b0 = pokes buffer 0 bs" "LF \<notin> set bs"
      "map snd (rx s) = bs @ map snd (rx s0) \<or> map snd (rx s) = bs @ LF # map snd (rx s0)"
      by auto
    from r l False have "k = k0" "s1 = s0" "b1 = (if k0 < bsize - 1 then poke b0 (int k0) NUL else b0)"
      by (auto simp: readBytesUntil_def)
    with bs res show ?thesis
      by (intro that [of bs b1]) simp_all
  qed
qed

lemma takeWhile_length_le:
  "n < length xs \<Longrightarrow> \<not> P (xs ! n) \<Longrightarrow> length (takeWhile P xs) \<le> n"
  by (metis linorder_not_le nth_length_takeWhile takeWhile_nth length_takeWhile_le
      nth_mem set_takeWhileD)


lemma inputBufferSize_val: "inputBufferSize = 1024"
  by (simp add: inputBufferSize_def SODAQ_GSM_MODEM_DEFAULT_INPUT_BUFFER_SIZE_def)

lemma in_cells_nat: "in_cells a i \<Longrightarrow> nat i < length (cells a)"
  unfolding in_cells_def by linarith

lemma c_str_poke_NUL: "0 \<le> i \<Longrightarrow> length (c_str (poke a i NUL)) \<le> nat i"
proof (cases "in_cells a i")
  case True
  assume "0 \<le> i"
  have n: "nat i < length (cells a)" using True by (rule in_cells_nat)
  then have "nat i < length ((cells a)[nat i := NUL])" by simp
  moreover from n have "\<not> ((cells a)[nat i := NUL] ! nat i \<noteq> NUL)" by simp
  ultimately have "length (takeWhile (\<lambda>c. c \<noteq> NUL) ((cells a)[nat i := NUL])) \<le> nat i"
    by (rule takeWhile_length_le)
  with True show ?thesis by (simp add: c_str_def poke_def)
next
  case False
  assume "0 \<le> i"
  with False have "length (cells a) \<le> nat i" by (simp add: in_cells_def)
  moreover have "length (c_str (poke a i NUL)) \<le> length (cells a)"
    using False by (simp add: c_str_def poke_def length_takeWhile_le)
  ultimately show ?thesis by simp
qed

lemma readLn_count:
  assumes "readLn buffer inputBufferSize timeout s = (len, b, s')" "0 < as_int len"
  shows "len \<le> 1023 \<and> length (c_str b) \<le> len"
proof -
  have "0 < inputBufferSize" "inputBufferSize < 2 ^ 32" by (simp_all add: inputBufferSize_val)
  then obtain bs b1 where
    "length bs \<le> inputBufferSize - 1" "LF \<notin> set bs"
    "map snd (rx s) = bs @ map snd (rx s') \<or> map snd (rx s) = bs @ LF # map snd (rx s')"
    "b1 = (if length bs < inputBufferSize - 1 then poke (pokes buffer 0 bs) (int (length bs)) NUL
           else pokes buffer 0 bs)"
    "len = (if peek b1 (as_int (size_sub (length bs) (Suc 0))) = CR
                  then size_sub (length bs) (Suc 0) else length bs)"
    "b = poke b1 (as_int len) NUL"
    by (rule readLn_shape [OF assms(1)])
  then have bs:
    "length bs \<le> 1023"
    "len = (if peek b1 (as_int (size_sub (length bs) (Suc 0))) = CR
                  then size_sub (length bs) (Suc 0) else length bs)"
    "b = poke b1 (as_int len) NUL"
    by (simp_all add: inputBufferSize_val)
  show ?thesis
  proof (cases "length bs = 0")
    case True
    with bs(2) have "len = 2 ^ 32 - 1 \<or> len = 0" by (auto simp: size_sub_0_1 split: if_splits)
    with assms(2) show ?thesis by (auto simp: as_int_def)
  next
    case False
    with bs(1) have "size_sub (length bs) (Suc 0) = length bs - 1" by (simp add: size_sub_1)
    with bs(1,2) have le: "len \<le> 1023" by (auto split: if_splits)
    then have "as_int len = int len" by (simp add: as_int_small)
    with bs(3) c_str_poke_NUL [of "int len" b1] have "length (c_str b) \<le> len" by simp
    with le show ?thesis by simp
  qed
qed

text \<open>
  With room for \<open>bsize\<close> bytes, and a byte other than CR in front of the buffer,
  \<open>readLn\<close> writes inside the buffer only and closes the line with NUL.
\<close>

lemma readLn_safe:
  assumes r: "readLn buffer bsize timeout s = (len, b, s')"
    and wf: "length (cells buffer) = bsize" "0 < bsize" "bsize < 2 ^ 31" "\<not> stray buffer"
    and pre: "outside buffer (- 1) \<noteq> CR"
  shows "\<not> stray b \<and> length (cells b) = bsize \<and> len < bsize \<and> cells b ! len = NUL"
proof -
  have "bsize < 2 ^ 32" using wf(3) by simp
  then obtain bs b1 where bs:
    "length bs \<le> bsize - 1" "LF \<notin> set bs"
    "map snd (rx s) = bs @ map snd (rx s') \<or> map snd (rx s) = bs @ LF # map snd (rx s')"
    "b1 = (if length bs < bsize - 1 then poke (pokes buffer 0 bs) (int (length bs)) NUL
                 else pokes buffer 0 bs)"
    "len = (if peek b1 (as_int (size_sub (length bs) (Suc 0))) = CR
                  then size_sub (length bs) (Suc 0) else length bs)"
    "b = poke b1 (as_int len) NUL"
    by (rule readLn_shape [OF r wf(2)])
  have "0 + length bs \<le> length (cells buffer)" using bs(1) wf by simp
  from pokes_in_range [OF this]
  have p: "pokes buffer 0 bs = buffer\<lparr>cells := bs @ drop (length bs) (cells buffer)\<rparr>" by simp
  have b1: "\<not> stray b1" "length (cells b1) = bsize" "outside b1 = outside buffer"
    using bs(1,4) wf by (auto simp: p poke_def in_cells_def)
  have len: "len \<le> length bs"
  proof (cases "length bs = 0")
    case True
    then have "peek b1 (as_int (size_sub (length bs) (Suc 0))) = outside buffer (- 1)"
      using b1 by (simp add: size_sub_0_1 as_int_max peek_def in_cells_def)
    with pre bs(5) True show ?thesis by simp
  next
    case False
    with bs(1) wf(3) have "size_sub (length bs) (Suc 0) = length bs - 1" by (simp add: size_sub_1)
    with bs(5) show ?thesis by (auto split: if_splits)
  qed
  with bs(1) wf have lt: "len < bsize" by simp
  with wf(3) have "as_int len = int len" by (simp add: as_int_small)
  with bs(6) lt b1 show ?thesis by (simp add: poke_def in_cells_def)
qed

lemma timedRead_queued:
  "rx s = (t, c) # r \<Longrightarrow> t \<le> now s \<Longrightarrow> timedRead timeout s = (of_char c, s\<lparr>rx := r\<rparr>)"
  by (simp add: timedRead_def max_def)

lemma readBytesUntil_loop_line:
  assumes "rx s = map (Pair t) (l @ [LF]) @ q" "t \<le> now s" "LF \<notin> set l" "i + length l < n"
  shows "readBytesUntil_loop LF timeout n i buffer s = (i + length l, pokes buffer (int i) l, s\<lparr>rx := q\<rparr>)"
  using assms
proof (induction l arbitrary: i buffer s)
  case Nil
  then have "timedRead timeout s = (of_char LF, s\<lparr>rx := q\<rparr>)"
    by (simp add: timedRead_queued)
  with Nil show ?case by (subst readBytesUntil_loop.simps) simp
next
  case (Cons c l)
  let ?s1 = "s\<lparr>rx := map (Pair t) (l @ [LF]) @ q\<rparr>"
  from Cons.prems have tr: "timedRead timeout s = (of_char c, ?s1)"
    by (simp add: timedRead_queued)
  have ne: "(of_char c :: int) \<noteq> of_char LF" "\<not> (of_char c :: int) < 0"
    using Cons.prems by (auto simp: of_char_eq_int of_char_nonneg)
  have "readBytesUntil_loop LF timeout n (Suc i) (poke buffer (int i) c) ?s1
          = (Suc i + length l, pokes (poke buffer (int i) c) (int (Suc i)) l, ?s1\<lparr>rx := q\<rparr>)"
    using Cons.prems by (intro Cons.IH) simp_all
  moreover have "i < n" using Cons.prems by simp
  ultimately show ?case
    using tr ne by (subst readBytesUntil_loop.simps) (simp add: add.commute)
qed

lemma poke_nat: "i < length (cells a) \<Longrightarrow> poke a (int i) v = a\<lparr>cells := (cells a)[i := v]\<rparr>"
  by (simp add: poke_def in_cells_def)

lemma peek_nat: "i < length (cells a) \<Longrightarrow> peek a (int i) = cells a ! i"
  by (simp add: peek_def in_cells_def)

lemma upd_at_Suc_length: "(l @ x # y # r)[Suc (length l) := v] = l @ x # v # r"
  by (simp add: list_update_append)

lemma readLn_line:
  assumes q: "rx s = map (Pair t) (l @ [CR, LF]) @ q" "t \<le> now s"
    and l: "LF \<notin> set l" "length l \<le> 1021"
    and wf: "length (cells buffer) = inputBufferSize"
  shows "readLn buffer inputBufferSize timeout s =
           (length l, buffer\<lparr>cells := l @ NUL # NUL # drop (length l + 2) (cells buffer)\<rparr>, s\<lparr>rx := q\<rparr>)"
proof -
  have L: "length (cells buffer) = 1024" using wf by (simp add: inputBufferSize_val)
  have n: "size_sub inputBufferSize (Suc 0) = 1023" by (simp add: inputBufferSize_val size_sub_1)
  have "rx s = map (Pair t) ((l @ [CR]) @ [LF]) @ q" using q by simp
  moreover have "LF \<notin> set (l @ [CR])" using l by (simp add: LF_def CR_def)
  moreover have "0 + length (l @ [CR]) < 1023" using l by simp
  ultimately have loop: "readBytesUntil_loop LF timeout 1023 0 buffer s
      = (0 + length (l @ [CR]), pokes buffer (int 0) (l @ [CR]), s\<lparr>rx := q\<rparr>)"
    using q(2) by (intro readBytesUntil_loop_line)
  have "0 + length (l @ [CR]) \<le> length (cells buffer)" using l L by simp
  from pokes_in_range [OF this]
  have p: "pokes buffer 0 (l @ [CR]) = buffer\<lparr>cells := l @ CR # drop (Suc (length l)) (cells buffer)\<rparr>"
    by simp
  let ?b1 = "buffer\<lparr>cells := l @ CR # NUL # drop (length l + 2) (cells buffer)\<rparr>"
  have d: "drop (Suc (length l)) (cells buffer) = cells buffer ! Suc (length l) # drop (length l + 2) (cells buffer)"
    using l L by (simp add: Cons_nth_drop_Suc)
  let ?b0 = "buffer\<lparr>cells := l @ CR # cells buffer ! Suc (length l) # drop (length l + 2) (cells buffer)\<rparr>"
  have p0: "pokes buffer 0 (l @ [CR]) = ?b0" using p d by simp
  have "Suc (length l) < length (cells ?b0)" using l L by simp
  from poke_nat [OF this] have pk1: "poke ?b0 (int (Suc (length l))) NUL = ?b1"
    by (simp add: upd_at_Suc_length del: of_nat_Suc)
  have rb: "readBytesUntil LF buffer 1023 timeout s = (Suc (length l), ?b1, s\<lparr>rx := q\<rparr>)"
    using l loop pk1 by (simp add: readBytesUntil_def p0 del: of_nat_Suc)
  have len1: "length l < length (cells ?b1)" using l L by simp
  have pk: "peek ?b1 (int (length l)) = CR"
    using peek_nat [OF len1] by simp
  have pk2: "poke ?b1 (int (length l)) NUL = buffer\<lparr>cells := l @ NUL # NUL # drop (length l + 2) (cells buffer)\<rparr>"
    using poke_nat [OF len1] by simp
  have s1: "size_sub (Suc (length l)) (Suc 0) = length l"
    using l size_sub_1 [of "Suc (length l)"] by simp
  have ai: "as_int (length l) = int (length l)" using l by (simp add: as_int_small)
  show ?thesis
    using pk pk2 by (simp add: readLn_unfold n rb s1 ai)
qed

subsection \<open>The response matcher on lines that are in the queue\<close>

lemma after_line_simps [simp]:
  "rx (after_line l q s) = q"
  "now (after_line l q s) = now s"
  "tx (after_line l q s) = tx s"
  "appendCommand (after_line l q s) = appendCommand s"
  "socketClosedBit (after_line l q s) = socketClosedBit s"
  "socketPendingBytes (after_line l q s) = socketPendingBytes s"
  "is_timedout from_ms timeout (after_line l q s) = is_timedout from_ms timeout s"
  by (simp_all add: after_line_def is_timedout_def)

lemma after_line_cells [simp]:
  "length l + 2 \<le> length (cells (inputBuffer s)) \<Longrightarrow>
     length (cells (inputBuffer (after_line l q s))) = length (cells (inputBuffer s))"
  by (simp add: after_line_def)

lemma c_str_after_line [simp]:
  "NUL \<notin> set l \<Longrightarrow> c_str (inputBuffer (after_line l q s)) = l"
  by (auto simp: after_line_def c_str_def takeWhile_tail)

lemma queued_Cons: "queued t (l # ls) = map (Pair t) (l @ [CR, LF]) @ queued t ls"
  by (simp add: queued_def SODAQ_GSM_TERMINATOR_def)

lemma queued_Nil [simp]: "queued t [] = []"
  by (simp add: queued_def)

text \<open>One turn of the loop of \<open>readResponse\<close> when a whole line is in the queue.\<close>

lemma readResponse_loop_line:
  assumes "rx s = queued t (l # ls)" "t \<le> now s"
    and "LF \<notin> set l" "length l \<le> 1021"
    and "length (cells (inputBuffer s)) = inputBufferSize"
    and "\<not> is_timedout from_ms timeout s"
  shows "readResponse_loop cfg m prefix timeout from_ms (ob, n, s) =
          (case readResponse_line cfg m prefix (int (length l)) (ob, n, after_line l (queued t ls) s) of
             (Some r, st') \<Rightarrow> (r, fst st', snd (snd st'))
           | (None, st') \<Rightarrow> readResponse_loop cfg m prefix timeout from_ms st')"
proof -
  have "rx s = map (Pair t) (l @ [CR, LF]) @ queued t ls" using assms(1) by (simp add: queued_Cons)
  from readLn_line [OF this assms(2-5)]
  have "readLn (inputBuffer s) inputBufferSize 250 s =
          (length l, (inputBuffer s)\<lparr>cells := l @ NUL # NUL # drop (length l + 2) (cells (inputBuffer s))\<rparr>,
           s\<lparr>rx := queued t ls\<rparr>)" .
  moreover have "as_int (length l) = int (length l)" using assms(4) by (simp add: as_int_small)
  ultimately have "readResponse_body cfg m prefix (ob, n, s) =
      readResponse_line cfg m prefix (int (length l)) (ob, n, after_line l (queued t ls) s)"
    by (simp add: readResponse_body_def after_line_def)
  with assms(6) show ?thesis
    by (subst readResponse_loop.simps) simp
qed

lemma startsWith_append: "startsWith pre l \<Longrightarrow> l = pre @ drop (length pre) l"
  by (metis append_take_drop_id startsWith_def)

lemma startsWith_hd: "startsWith pre l \<Longrightarrow> pre \<noteq> [] \<Longrightarrow> l \<noteq> [] \<and> hd l = hd pre"
  by (cases l; cases pre) (auto simp: startsWith_def)

lemma not_timedout_start [simp]: "\<not> is_timedout (now s) timeout s"
  by (simp add: is_timedout_def)

lemma readResponse_error_line:
  assumes q: "rx s = queued t (l # ls)" "t \<le> now s" and wf: "input_ready s"
    and l: "LF \<notin> set l" "NUL \<notin> set l" "length l \<le> 1021"
    and e: "startsWith STR_RESPONSE_ERROR l \<or> startsWith STR_RESPONSE_CME_ERROR l \<or>
            startsWith STR_RESPONSE_CMS_ERROR l"
  shows "readResponse cfg ob m prefix timeout s =
           (GSMResponseError, map_option (\<lambda>b. poke b 0 NUL) ob, after_line l (queued t ls) s)"
proof -
  from e have h: "l \<noteq> [] \<and> (hd l = CHR ''E'' \<or> hd l = CHR ''+'')"
    by (auto simp: STR_RESPONSE_ERROR_def STR_RESPONSE_CME_ERROR_def STR_RESPONSE_CMS_ERROR_def
        dest!: startsWith_hd)
  then have ne: "l \<noteq> []" "\<not> startsWith STR_AT l" "\<not> startsWith STR_RESPONSE_OK l"
    by (auto simp: STR_AT_def STR_RESPONSE_OK_def dest!: startsWith_hd)
  have "readResponse_line cfg m prefix (int (length l))
          (map_option (\<lambda>b. poke b 0 NUL) ob, 0, after_line l (queued t ls) s)
        = (Some GSMResponseError, map_option (\<lambda>b. poke b 0 NUL) ob, 0, after_line l (queued t ls) s)"
    using ne e l by (simp add: readResponse_line_def Let_def)
  then show ?thesis
    using readResponse_loop_line [OF q l(1,3) wf [unfolded input_ready_def], of "now s" timeout cfg m prefix
        "map_option (\<lambda>b. poke b 0 NUL) ob" 0]
    by (simp add: readResponse_def)
qed

lemma input_ready_initial [simp]: "input_ready (initial_modem n q)"
  by (simp add: input_ready_def initial_modem_def)

lemma initial_modem_simps [simp]:
  "rx (initial_modem n q) = q" "now (initial_modem n q) = 0" "tx (initial_modem n q) = []"
  by (simp_all add: initial_modem_def)

subsection \<open>The tag of a notification\<close>

lemma parse_format_UFOTAS:
  "parse_format ''+UFOTAS: %d,%d'' = map Lit ''+UFOTAS:'' @ [White, Conv_d True, Lit (CHR '',''), Conv_d True]"
  by (simp add: parse_format.simps isspace_def)

lemma parse_format_UUSORF:
  "parse_format ''+UUSORF: %d,%d'' = map Lit ''+UUSORF:'' @ [White, Conv_d True, Lit (CHR '',''), Conv_d True]"
  by (simp add: parse_format.simps isspace_def)

lemma parse_format_UUSOCL:
  "parse_format ''+UUSOCL: %d'' = map Lit ''+UUSOCL:'' @ [White, Conv_d True]"
  by (simp add: parse_format.simps isspace_def)

lemma parse_format_CSCON:
  "parse_format ''+CSCON: %d'' = map Lit ''+CSCON:'' @ [White, Conv_d True]"
  by (simp add: parse_format.simps isspace_def)

lemma scan_tag:
  "snd (scan (map Lit tag @ ds) inp []) \<noteq> [] \<Longrightarrow> startsWith tag inp"
proof (induction tag arbitrary: inp)
  case Nil
  then show ?case by (simp add: startsWith_def)
next
  case (Cons c tag)
  then show ?case
    by (cases inp) (auto simp: startsWith_def split: if_splits)
qed

lemma sscanf_tag:
  assumes "parse_format fmt = map Lit tag @ ds" "0 < fst (sscanf str fmt)"
  shows "startsWith tag str"
proof -
  from assms have "snd (scan (map Lit tag @ ds) str []) \<noteq> []"
    by (auto simp: sscanf_def split: prod.splits if_splits)
  then show ?thesis by (rule scan_tag)
qed

lemma checkURC_tag:
  assumes "fst (checkURC cfg line s)"
  shows "startsWith ''+UFOTAS:'' line \<or> startsWith ''+UUSORF:'' line \<or>
         startsWith ''+UUSOCL:'' line \<or> startsWith ''+CSCON:'' line"
proof -
  from assms have "0 < fst (sscanf line ''+UFOTAS: %d,%d'') \<or> 0 < fst (sscanf line ''+UUSORF: %d,%d'') \<or>
    0 < fst (sscanf line ''+UUSOCL: %d'') \<or> 0 < fst (sscanf line ''+CSCON: %d'')"
    by (auto simp: checkURC_def Let_def split: if_splits)
  then show ?thesis
    using sscanf_tag [OF parse_format_UFOTAS] sscanf_tag [OF parse_format_UUSORF]
      sscanf_tag [OF parse_format_UUSOCL] sscanf_tag [OF parse_format_CSCON]
    by blast
qed

lemma checkURC_pending_tag:
  assumes "socketPendingBytes (snd (checkURC cfg line s)) \<noteq> socketPendingBytes s"
  shows "startsWith ''+UUSORF:'' line"
proof -
  from assms have "0 < fst (sscanf line ''+UUSORF: %d,%d'')"
    by (auto simp: checkURC_def Let_def split: if_splits)
  then show ?thesis by (rule sscanf_tag [OF parse_format_UUSORF])
qed

subsection \<open>Appending to the output buffer, and the kinds of line\<close>

lemma memcpy_in_range:
  "d + n \<le> length (cells dst) \<Longrightarrow> f + n \<le> length (cells src) \<Longrightarrow>
     memcpy dst (int d) src (int f) n =
       dst\<lparr>cells := take d (cells dst) @ take n (drop f (cells src)) @ drop (d + n) (cells dst)\<rparr>"
proof (induction n arbitrary: dst d f)
  case 0
  then show ?case by simp
next
  case (Suc n)
  then have lt: "d < length (cells dst)" "f < length (cells src)" by simp_all
  have p: "poke dst (int d) (peek src (int f)) = dst\<lparr>cells := (cells dst)[d := cells src ! f]\<rparr>"
    using lt by (simp add: poke_nat peek_nat)
  have "Suc d + n \<le> length (cells (poke dst (int d) (peek src (int f))))" "Suc f + n \<le> length (cells src)"
    using Suc.prems by simp_all
  from Suc.IH [OF this]
  have ih: "memcpy (poke dst (int d) (peek src (int f))) (int (Suc d)) src (int (Suc f)) n =
      (poke dst (int d) (peek src (int f)))\<lparr>cells :=
         take (Suc d) (cells (poke dst (int d) (peek src (int f)))) @ take n (drop (Suc f) (cells src)) @
         drop (Suc d + n) (cells (poke dst (int d) (peek src (int f))))\<rparr>" .
  have "memcpy dst (int d) src (int f) (Suc n)
      = memcpy (poke dst (int d) (peek src (int f))) (int (Suc d)) src (int (Suc f)) n"
    by (simp add: add.commute)
  also note ih
  finally show ?case
    using lt by (simp add: p take_Suc_conv_app_nth Cons_nth_drop_Suc [symmetric])
qed

lemma size_sub_le: "b \<le> a \<Longrightarrow> a < 2 ^ 32 \<Longrightarrow> size_sub a b = a - b"
proof -
  assume a: "b \<le> a" "a < 2 ^ 32"
  then have "a + 2 ^ 32 - b mod 2 ^ 32 = (a - b) + 2 ^ 32" by simp
  moreover have "a - b < 2 ^ 32" using a by simp
  ultimately show ?thesis by (simp add: size_sub_def)
qed

text \<open>The first line appended to an empty output buffer, when it fits.\<close>

lemma append_line_first:
  assumes cap: "length (cells ob) = m" "length p < m" "m \<le> 2 ^ 31" and z: "cells ob ! 0 = NUL"
    and src: "take (length pre + length p) (cells ib) = pre @ p" "length pre + length p \<le> 1021"
  shows "append_line m True pre ib (int (length pre + length p)) ob 0 =
           (ob\<lparr>cells := p @ NUL # drop (Suc (length p)) (cells ob)\<rparr>, length p)"
proof -
  have m1: "size_sub m 1 = m - 1" using cap by (simp add: size_sub_le)
  show ?thesis
  proof (cases "0 < m - 1")
    case False
    with cap have "length p = 0" "m = 1" by linarith+
    then have "p = []" "m = 1" by simp_all
    with cap False m1 z show ?thesis
      by (cases "cells ob") (simp_all add: append_line_def)
  next
    case True
    have ai: "as_int (length pre) = int (length pre)" using src(2) by (simp add: as_int_small)
    have ts: "to_size (int (length p)) = length p" using src(2) by (simp add: to_size_def)
    have sa: "size_add 0 (length p) = length p" using src(2) by (simp add: size_add_def)
    have len: "length pre + length p \<le> length (cells ib)"
      using src(1) by (metis length_append length_take min.cobounded1)
    have "take (length p) (drop (length pre) (cells ib)) = p"
      using src(1) by (metis append_eq_conv_conj drop_take add_diff_cancel_left')
    moreover have "0 + length p \<le> length (cells ob)" "length pre + length p \<le> length (cells ib)"
      using cap len by simp_all
    from memcpy_in_range [OF this]
    have "memcpy ob 0 ib (int (length pre)) (length p) =
        ob\<lparr>cells := take (length p) (drop (length pre) (cells ib)) @ drop (length p) (cells ob)\<rparr>"
      by simp
    ultimately have mc: "memcpy ob 0 ib (int (length pre)) (length p) =
        ob\<lparr>cells := p @ drop (length p) (cells ob)\<rparr>" by simp
    have ai2: "as_int (length p) = int (length p)" using src(2) by (simp add: as_int_small)
    have "length p < length (cells (ob\<lparr>cells := p @ drop (length p) (cells ob)\<rparr>))" using cap by simp
    from poke_nat [OF this]
    have pk: "poke (ob\<lparr>cells := p @ drop (length p) (cells ob)\<rparr>) (int (length p)) NUL
        = ob\<lparr>cells := p @ NUL # drop (Suc (length p)) (cells ob)\<rparr>"
      using cap by (simp add: list_update_append Cons_nth_drop_Suc [symmetric] upd_conv_take_nth_drop)
    have a0: "as_int 0 = 0" by (simp add: as_int_def)
    have fits: "\<not> m - Suc 0 < length p" using cap by linarith
    show ?thesis
      using True cap m1 ai ts sa mc ai2 pk a0 fits
      by (simp add: append_line_def Let_def)
  qed
qed

lemma checkURC_keeps [simp]:
  "inputBuffer (snd (checkURC cfg line s)) = inputBuffer s"
  "tx (snd (checkURC cfg line s)) = tx s"
  "is_timedout from_ms timeout (snd (checkURC cfg line s)) = is_timedout from_ms timeout s"
  "input_ready (snd (checkURC cfg line s)) = input_ready s"
  by (simp_all add: checkURC_def Let_def is_timedout_def input_ready_def)

lemma checkURC_fst: "fst (checkURC cfg line s) = fst (checkURC cfg line s')"
  by (simp add: checkURC_def Let_def)

lemma input_ready_after_line [simp]:
  "input_ready s \<Longrightarrow> length l \<le> 1021 \<Longrightarrow> input_ready (after_line l q s)"
  by (simp add: input_ready_def inputBufferSize_val)

lemma notification_not_terminal:
  assumes "fst (checkURC cfg line s)"
  shows "line \<noteq> []" "\<not> startsWith STR_AT line" "\<not> startsWith STR_RESPONSE_OK line"
    "\<not> startsWith STR_RESPONSE_ERROR line" "\<not> startsWith STR_RESPONSE_CME_ERROR line"
    "\<not> startsWith STR_RESPONSE_CMS_ERROR line" "\<not> startsWith ''+PREFIX: '' line"
proof -
  from checkURC_tag [OF assms] have
    "(\<exists>r. line = ''+UFOTAS:'' @ r) \<or> (\<exists>r. line = ''+UUSORF:'' @ r) \<or>
     (\<exists>r. line = ''+UUSOCL:'' @ r) \<or> (\<exists>r. line = ''+CSCON:'' @ r)"
    using startsWith_append by blast
  then show "line \<noteq> []" "\<not> startsWith STR_AT line" "\<not> startsWith STR_RESPONSE_OK line"
    "\<not> startsWith STR_RESPONSE_ERROR line" "\<not> startsWith STR_RESPONSE_CME_ERROR line"
    "\<not> startsWith STR_RESPONSE_CMS_ERROR line" "\<not> startsWith ''+PREFIX: '' line"
    by (auto simp: startsWith_def STR_AT_def STR_RESPONSE_OK_def STR_RESPONSE_ERROR_def
        STR_RESPONSE_CME_ERROR_def STR_RESPONSE_CMS_ERROR_def)
qed

lemma line_echo:
  assumes "c_str (inputBuffer s) = l" "startsWith STR_AT l"
  shows "readResponse_line cfg m prefix (int (length l)) (ob, n, s) = (None, ob, n, s)"
  using assms by (simp add: readResponse_line_def Let_def)

lemma line_ok:
  assumes "c_str (inputBuffer s) = l" "l \<noteq> []" "\<not> startsWith STR_AT l" "startsWith STR_RESPONSE_OK l"
  shows "readResponse_line cfg m prefix (int (length l)) (ob, n, s) = (Some GSMResponseOK, ob, n, s)"
  using assms by (simp add: readResponse_line_def Let_def)

lemma line_notification:
  assumes "c_str (inputBuffer s) = l" "fst (checkURC cfg l s)"
    and "prefix = None \<or> prefix = Some ''+PREFIX: ''"
  shows "readResponse_line cfg m prefix (int (length l)) (ob, n, s) = (None, ob, n, snd (checkURC cfg l s))"
  using assms notification_not_terminal [OF assms(2)]
  by (auto simp: readResponse_line_def Let_def)

lemma line_prefixed:
  assumes "c_str (inputBuffer s) = pre @ p" "pre \<noteq> []" "0 < m"
    and "\<not> startsWith STR_AT (pre @ p)" "\<not> startsWith STR_RESPONSE_OK (pre @ p)"
    "\<not> startsWith STR_RESPONSE_ERROR (pre @ p)" "\<not> startsWith STR_RESPONSE_CME_ERROR (pre @ p)"
    "\<not> startsWith STR_RESPONSE_CMS_ERROR (pre @ p)"
  shows "readResponse_line cfg m (Some pre) (int (length pre + length p)) (Some ob, n, s) =
           (case append_line m True pre (inputBuffer s) (int (length pre + length p)) ob n of
              (ob', n') \<Rightarrow> (None, Some ob', n', s))"
proof -
  have "\<not> int (length pre) + int (length p) \<le> 0" using assms(2) by (cases pre) simp_all
  with assms show ?thesis
    by (simp add: readResponse_line_def Let_def startsWith_def)
qed

lemma take_after_line:
  "length l + 2 \<le> length (cells (inputBuffer s)) \<Longrightarrow>
     take (length l) (cells (inputBuffer (after_line l q s))) = l"
  by (simp add: after_line_def)

subsection \<open>Replies to a command\<close>

text \<open>A reply of one line with the expected prefix and the final \<open>OK\<close>.\<close>

lemma readResponse_reply:
  assumes q: "rx s = queued t [pre @ p, ''OK'']" "t \<le> now s" "input_ready s"
    and pre: "pre \<noteq> []"
      "\<not> startsWith STR_AT (pre @ p)" "\<not> startsWith STR_RESPONSE_OK (pre @ p)"
      "\<not> startsWith STR_RESPONSE_ERROR (pre @ p)" "\<not> startsWith STR_RESPONSE_CME_ERROR (pre @ p)"
      "\<not> startsWith STR_RESPONSE_CMS_ERROR (pre @ p)"
    and clean: "LF \<notin> set (pre @ p)" "NUL \<notin> set (pre @ p)" "length (pre @ p) \<le> 1021"
    and cap: "length (cells ob) = m" "length p < m" "m \<le> 2 ^ 31"
  shows "readResponse cfg (Some ob) m (Some pre) timeout s =
           (GSMResponseOK, Some (ob\<lparr>cells := p @ NUL # drop (Suc (length p)) (cells ob)\<rparr>),
            after_line ''OK'' [] (after_line (pre @ p) (queued t [''OK'']) s))"
proof -
  let ?ob0 = "poke ob 0 NUL"
  have m0: "0 < m" using cap by simp
  have ob0: "?ob0 = ob\<lparr>cells := (cells ob)[0 := NUL]\<rparr>"
    using poke_nat [of 0 ob NUL] cap m0 by simp
  have c: "LF \<notin> set ''OK''" "NUL \<notin> set ''OK''" by (simp_all add: LF_def NUL_def)
  have nt: "\<not> is_timedout (now s) timeout s" by simp
  let ?s3 = "after_line (pre @ p) (queued t [''OK'']) s"
  let ?ob1 = "?ob0\<lparr>cells := p @ NUL # drop (Suc (length p)) (cells ?ob0)\<rparr>"
  have tk: "take (length pre + length p) (cells (inputBuffer ?s3)) = pre @ p"
    using take_after_line [of "pre @ p" s] q(3) clean(3) by (simp add: input_ready_def inputBufferSize_val)
  have ap: "append_line m True pre (inputBuffer ?s3) (int (length pre + length p)) ?ob0 0 = (?ob1, length p)"
    using cap m0 clean(3) by (intro append_line_first tk) (simp_all add: ob0)
  have 3: "readResponse_loop cfg m (Some pre) timeout (now s) (Some ?ob0, 0, s)
         = readResponse_loop cfg m (Some pre) timeout (now s) (Some ?ob1, length p, ?s3)"
    using readResponse_loop_line [OF q(1,2) clean(1,3) q(3) [unfolded input_ready_def] nt]
      line_prefixed [of ?s3 pre p m cfg ?ob0 0, OF _ pre(1) m0 pre(2-6)] clean(2) ap
    by simp
  let ?s4 = "after_line ''OK'' (queued t []) ?s3"
  have r3: "input_ready ?s3" using q(3) clean(3) by simp
  have 4: "readResponse_loop cfg m (Some pre) timeout (now s) (Some ?ob1, length p, ?s3)
         = (GSMResponseOK, Some ?ob1, ?s4)"
    using readResponse_loop_line [of ?s3 t "''OK''" _ "now s" timeout, OF _ _ c(1) _ r3 [unfolded input_ready_def]]
      line_ok [of ?s4 "''OK''"] c(2) q(2) nt
    by (simp add: startsWith_def STR_AT_def STR_RESPONSE_OK_def)
  have "drop (Suc (length p)) ((cells ob)[0 := NUL]) = drop (Suc (length p)) (cells ob)"
    by (cases "cells ob") simp_all
  then have "?ob1 = ob\<lparr>cells := p @ NUL # drop (Suc (length p)) (cells ob)\<rparr>"
    by (simp add: ob0)
  with 3 4 show ?thesis by (simp add: readResponse_def)
qed

lemma print_keeps [simp]:
  "rx (print_str c s) = rx s" "now (print_str c s) = now s" "inputBuffer (print_str c s) = inputBuffer s"
  "socketClosedBit (print_str c s) = socketClosedBit s" "socketPendingBytes (print_str c s) = socketPendingBytes s"
  "rx (print_char ch s) = rx s" "now (print_char ch s) = now s" "inputBuffer (print_char ch s) = inputBuffer s"
  "socketClosedBit (print_char ch s) = socketClosedBit s" "socketPendingBytes (print_char ch s) = socketPendingBytes s"
  "rx (print_num k s) = rx s" "now (print_num k s) = now s" "inputBuffer (print_num k s) = inputBuffer s"
  "socketClosedBit (print_num k s) = socketClosedBit s" "socketPendingBytes (print_num k s) = socketPendingBytes s"
  "rx (println s) = rx s" "now (println s) = now s" "inputBuffer (println s) = inputBuffer s"
  "socketClosedBit (println s) = socketClosedBit s" "socketPendingBytes (println s) = socketPendingBytes s"
  by (simp_all add: print_str_def print_char_def print_num_def println_def writeProlog_def)

lemma println_keeps [simp]:
  "rx (println_str c s) = rx s" "now (println_str c s) = now s" "inputBuffer (println_str c s) = inputBuffer s"
  "socketClosedBit (println_str c s) = socketClosedBit s" "socketPendingBytes (println_str c s) = socketPendingBytes s"
  "rx (println_num k s) = rx s" "now (println_num k s) = now s" "inputBuffer (println_num k s) = inputBuffer s"
  "socketClosedBit (println_num k s) = socketClosedBit s" "socketPendingBytes (println_num k s) = socketPendingBytes s"
  "rx (println_char ch s) = rx s" "now (println_char ch s) = now s" "inputBuffer (println_char ch s) = inputBuffer s"
  "socketClosedBit (println_char ch s) = socketClosedBit s" "socketPendingBytes (println_char ch s) = socketPendingBytes s"
  by (simp_all add: println_str_def println_num_def println_char_def)

lemma input_ready_cong: "inputBuffer s' = inputBuffer s \<Longrightarrow> input_ready s' = input_ready s"
  by (simp add: input_ready_def)

text \<open>\<open>socketCreate\<close> when the modem answers with a session line and \<open>OK\<close>.\<close>

lemma socketCreate_reply:
  assumes q: "rx s = queued t [''+USOCR: '' @ d, ''OK'']" "t \<le> now s" "input_ready s"
    and d: "LF \<notin> set d" "NUL \<notin> set d" "length d < 32"
    and sc: "sscanf d ''%d'' = (1, [IntV v])"
  shows "\<exists>s'. socketClosedBit s' = socketClosedBit s \<and> socketPendingBytes s' = socketPendingBytes s \<and>
           socketCreate cfg localPort protocol s =
             (if sint v < 0 \<or> sint v > int (SOCKET_COUNT cfg) then (SOCKET_FAIL, s')
              else (sint v, s'\<lparr>socketClosedBit := poke (socketClosedBit s') (sint v) True,
                                socketPendingBytes := poke (socketPendingBytes s') (sint v) 0\<rparr>))"
proof -
  let ?s1 = "print_str (if protocol = UDP then ''17'' else ''6'') (print_str ''AT+USOCR='' s)"
  let ?s2 = "if localPort > 0 then println_num (unat localPort) (print_char (CHR '','') ?s1) else println ?s1"
  have s2: "rx ?s2 = queued t [''+USOCR: '' @ d, ''OK'']" "t \<le> now ?s2" "input_ready ?s2"
    "socketClosedBit ?s2 = socketClosedBit s" "socketPendingBytes ?s2 = socketPendingBytes s"
    using q by (simp_all add: input_ready_def)
  let ?s3 = "after_line ''OK'' [] (after_line (''+USOCR: '' @ d) (queued t [''OK'']) ?s2)"
  let ?b = "(local_array 32)\<lparr>cells := d @ NUL # drop (Suc (length d)) (cells (local_array 32))\<rparr>"
  have rr: "readResponse cfg (Some (local_array 32)) 32 (Some ''+USOCR: '') (DEFAULT_READ_MS cfg) ?s2
      = (GSMResponseOK, Some ?b, ?s3)"
    using d by (intro readResponse_reply s2)
      (simp_all add: startsWith_def STR_AT_def STR_RESPONSE_OK_def STR_RESPONSE_ERROR_def
        STR_RESPONSE_CME_ERROR_def STR_RESPONSE_CMS_ERROR_def LF_def NUL_def local_array_def)
  have cs: "c_str ?b = d" using d(2) by (auto simp: c_str_def takeWhile_tail)
  have t3: "socketClosedBit ?s3 = socketClosedBit s" "socketPendingBytes ?s3 = socketPendingBytes s"
    using s2 by simp_all
  have "socketCreate cfg localPort protocol s =
             (if sint v < 0 \<or> sint v > int (SOCKET_COUNT cfg) then (SOCKET_FAIL, ?s3)
              else (sint v, ?s3\<lparr>socketClosedBit := poke (socketClosedBit ?s3) (sint v) True,
                                socketPendingBytes := poke (socketPendingBytes ?s3) (sint v) 0\<rparr>))"
    unfolding socketCreate_def Let_def rr by (simp add: cs sc int_arg_def del: after_line_simps)
  with t3 show ?thesis by blast
qed

subsection \<open>What the response matcher does to the socket table, for any stream\<close>

lemma startsWith_occurs: "startsWith pat xs \<Longrightarrow> occurs pat xs"
  by (cases xs) (simp_all add: startsWith_def)

lemma occurs_suffix: "occurs pat ys \<Longrightarrow> occurs pat (xs @ ys)"
  by (induction xs) simp_all

lemma startsWith_prefix: "startsWith pat xs \<Longrightarrow> startsWith pat (xs @ ys)"
  by (metis append_eq_conv_conj append.assoc startsWith_append startsWith_def)

lemma startsWith_take: "startsWith pat (take n xs) \<Longrightarrow> startsWith pat xs"
  by (metis append_take_drop_id startsWith_prefix)

lemma startsWith_takeWhile: "startsWith pat (takeWhile P xs) \<Longrightarrow> startsWith pat xs"
  by (metis takeWhile_dropWhile_id startsWith_prefix)

lemma takeWhile_take_stop:
  assumes "n < length xs" "\<not> P (xs ! n)"
  shows "takeWhile P xs = takeWhile P (take n xs)"
proof -
  have "xs = take n xs @ xs ! n # drop (Suc n) xs" using assms(1) by (rule id_take_nth_drop)
  then have "takeWhile P xs = takeWhile P (take n xs @ xs ! n # drop (Suc n) xs)" by simp
  also have "\<dots> = takeWhile P (take n xs)"
    using assms(2) by (auto simp: takeWhile_append takeWhile_eq_all_conv [THEN iffD2])
  finally show ?thesis .
qed

text \<open>
  With the input buffer allocated, the string that \<open>readLn\<close> leaves in it is the start of
  what the modem has sent.
\<close>

lemma readLn_prefix:
  assumes r: "readLn buffer inputBufferSize timeout s = (len, b, s')"
    and wf: "length (cells buffer) = inputBufferSize" and pos: "0 < as_int len"
  obtains bs where
    "map snd (rx s) = bs @ map snd (rx s') \<or> map snd (rx s) = bs @ LF # map snd (rx s')"
    "c_str b = takeWhile (\<lambda>c. c \<noteq> NUL) (take len bs)"
proof -
  have L: "length (cells buffer) = 1024" using wf by (simp add: inputBufferSize_val)
  have "0 < inputBufferSize" "inputBufferSize < 2 ^ 32" by (simp_all add: inputBufferSize_val)
  then obtain bs b1 where bs:
    "length bs \<le> inputBufferSize - 1" "LF \<notin> set bs"
    "map snd (rx s) = bs @ map snd (rx s') \<or> map snd (rx s) = bs @ LF # map snd (rx s')"
    "b1 = (if length bs < inputBufferSize - 1 then poke (pokes buffer 0 bs) (int (length bs)) NUL
           else pokes buffer 0 bs)"
    "len = (if peek b1 (as_int (size_sub (length bs) (Suc 0))) = CR
                  then size_sub (length bs) (Suc 0) else length bs)"
    "b = poke b1 (as_int len) NUL"
    by (rule readLn_shape [OF r])
  have k: "length bs \<le> 1023" using bs(1) by (simp add: inputBufferSize_val)
  have "0 + length bs \<le> length (cells buffer)" using k L by simp
  from pokes_in_range [OF this]
  have p: "pokes buffer 0 bs = buffer\<lparr>cells := bs @ drop (length bs) (cells buffer)\<rparr>" by simp
  have b1: "length (cells b1) = 1024" "take (length bs) (cells b1) = bs"
    using bs(4) k L by (auto simp: p poke_nat)
  have ne: "length bs \<noteq> 0"
  proof
    assume "length bs = 0"
    with bs(5) have "len = 4294967295 \<or> len = 0" by (auto simp: size_sub_0_1 split: if_splits)
    with pos show False by (auto simp: as_int_def)
  qed
  with k have "size_sub (length bs) (Suc 0) = length bs - 1" by (simp add: size_sub_1)
  with bs(5) have le: "len \<le> length bs" by (auto split: if_splits)
  with k have lt: "len < length (cells b1)" and ai: "as_int len = int len"
    using b1 by (simp_all add: as_int_small)
  have cb: "cells b = (cells b1)[len := NUL]" using bs(6) ai poke_nat [OF lt] by simp
  have "take len (cells b) = take len bs"
    using le b1(2) by (metis cb take_update_cancel order_refl take_take min.absorb1)
  moreover have "len < length (cells b)" "\<not> (cells b ! len \<noteq> NUL)" using lt cb by simp_all
  from takeWhile_take_stop [where P = "\<lambda>c. c \<noteq> NUL", OF this]
  have "c_str b = takeWhile (\<lambda>c. c \<noteq> NUL) (take len (cells b))" by (simp add: c_str_def)
  ultimately have "c_str b = takeWhile (\<lambda>c. c \<noteq> NUL) (take len bs)" by simp
  with bs(3) show ?thesis by (rule that)
qed

text \<open>A property of the state that every pass through the body keeps holds when the loop ends.\<close>

lemma readResponse_loop_invariant:
  assumes "readResponse_loop cfg m prefix timeout from_ms st = (r, ob', s')" "I (snd (snd st))"
    and "\<And>ob n s x ob1 n1 s1. I s \<Longrightarrow>
      readResponse_body cfg m prefix (ob, n, s) = (x, ob1, n1, s1) \<Longrightarrow> I s1"
  shows "I s'"
  using assms
proof (induction cfg m prefix timeout from_ms st rule: readResponse_loop.induct)
  case (1 cfg m prefix timeout from_ms st)
  obtain ob n s where st: "st = (ob, n, s)" by (cases st)
  show ?case
  proof (cases "is_timedout from_ms timeout s")
    case True
    with "1.prems" st show ?thesis by (simp add: readResponse_loop.simps)
  next
    case False
    obtain x ob1 n1 s1 where b: "readResponse_body cfg m prefix (ob, n, s) = (x, ob1, n1, s1)"
      by (cases "readResponse_body cfg m prefix (ob, n, s)")
    have i1: "I s1" using "1.prems"(2) st by (intro "1.prems"(3) [OF _ b]) simp
    show ?thesis
    proof (cases x)
      case (Some a)
      with False b "1.prems" st have "s' = s1" by (simp add: readResponse_loop.simps)
      with i1 show ?thesis by simp
    next
      case None
      with False b "1.prems" st
      have "readResponse_loop cfg m prefix timeout from_ms (ob1, n1, s1) = (r, ob', s')"
        by (simp add: readResponse_loop.simps)
      from "1.IH" [OF _ _ _ this] False b None st i1 "1.prems"(3) show ?thesis by simp
    qed
  qed
qed

lemma checkURC_closed:
  "peek (socketClosedBit s) i \<Longrightarrow> peek (socketClosedBit (snd (checkURC cfg line s))) i"
  by (auto simp: checkURC_def Let_def peek_poke)

lemma readLn_tables:
  assumes "readLn buffer bsize timeout s = (len, b, s')"
  shows "socketClosedBit s' = socketClosedBit s" "socketPendingBytes s' = socketPendingBytes s"
  using readLn_frame [OF assms] by (metis modem.select_convs modem.surjective modem.update_convs)+

lemma readResponse_line_state:
  assumes "readResponse_line cfg m prefix count (ob, n, s) = (x, ob1, n1, s1)"
  shows "s1 = s \<or> (0 < count \<and> s1 = snd (checkURC cfg (c_str (inputBuffer s)) s))"
  using assms by (auto simp: readResponse_line_def Let_def split: if_splits prod.splits)

lemma readResponse_body_closed:
  assumes "peek (socketClosedBit s) i" "readResponse_body cfg m prefix (ob, n, s) = (x, ob1, n1, s1)"
  shows "peek (socketClosedBit s1) i"
proof -
  obtain len ib s0 where l: "readLn (inputBuffer s) inputBufferSize 250 s = (len, ib, s0)"
    by (metis prod_cases3)
  with assms(2) have "readResponse_line cfg m prefix (as_int len) (ob, n, s0\<lparr>inputBuffer := ib\<rparr>) = (x, ob1, n1, s1)"
    by (simp add: readResponse_body_def)
  from readResponse_line_state [OF this] readLn_tables(1) [OF l] assms(1)
  show ?thesis by (auto intro: checkURC_closed)
qed

lemma readResponse_closed:
  assumes "readResponse cfg ob m prefix timeout s = (r, ob', s')" "peek (socketClosedBit s) i"
  shows "peek (socketClosedBit s') i"
proof -
  from assms(1) have "readResponse_loop cfg m prefix timeout (now s)
      (map_option (\<lambda>b. poke b 0 NUL) ob, 0, s) = (r, ob', s')"
    by (simp add: readResponse_def)
  then show ?thesis
  proof (rule readResponse_loop_invariant [where I = "\<lambda>u. peek (socketClosedBit u) i"])
    show "peek (socketClosedBit (snd (snd (map_option (\<lambda>b. poke b 0 NUL) ob, 0, s)))) i"
      using assms(2) by simp
  qed (rule readResponse_body_closed)
qed

lemma readResponse_body_pending:
  assumes inv: "input_ready s \<and> \<not> occurs ''+UUSORF:'' (map snd (rx s)) \<and> socketPendingBytes s = X"
    and b: "readResponse_body cfg m prefix (ob, n, s) = (x, ob1, n1, s1)"
  shows "input_ready s1 \<and> \<not> occurs ''+UUSORF:'' (map snd (rx s1)) \<and> socketPendingBytes s1 = X"
proof -
  obtain len ib s0 where l: "readLn (inputBuffer s) inputBufferSize 250 s = (len, ib, s0)"
    by (metis prod_cases3)
  let ?s0 = "s0\<lparr>inputBuffer := ib\<rparr>"
  from b l have rl: "readResponse_line cfg m prefix (as_int len) (ob, n, ?s0) = (x, ob1, n1, s1)"
    by (simp add: readResponse_body_def)
  note st = readResponse_line_state [OF rl]
  have "0 < inputBufferSize" "inputBufferSize < 2 ^ 32" by (simp_all add: inputBufferSize_val)
  then obtain bs b1 where bs:
    "length bs \<le> inputBufferSize - 1" "LF \<notin> set bs"
    "map snd (rx s) = bs @ map snd (rx s0) \<or> map snd (rx s) = bs @ LF # map snd (rx s0)"
    "b1 = (if length bs < inputBufferSize - 1 then poke (pokes (inputBuffer s) 0 bs) (int (length bs)) NUL
           else pokes (inputBuffer s) 0 bs)"
    "len = (if peek b1 (as_int (size_sub (length bs) (Suc 0))) = CR
                  then size_sub (length bs) (Suc 0) else length bs)"
    "ib = poke b1 (as_int len) NUL"
    by (rule readLn_shape [OF l])
  have ready: "input_ready ?s0" using inv bs(4,6) by (simp add: input_ready_def)
  have "occurs ''+UUSORF:'' (map snd (rx s)) \<or> \<not> occurs ''+UUSORF:'' (map snd (rx s0))"
    using bs(3) occurs_suffix [of "''+UUSORF:''" "map snd (rx s0)" bs]
      occurs_suffix [of "''+UUSORF:''" "map snd (rx s0)" "bs @ [LF]"] by auto
  with inv have no: "\<not> occurs ''+UUSORF:'' (map snd (rx ?s0))" by simp
  have same: "socketPendingBytes (snd (checkURC cfg (c_str ib) ?s0)) = socketPendingBytes ?s0" if "0 < as_int len"
  proof (rule ccontr)
    assume "\<not> ?thesis"
    then have sw: "startsWith ''+UUSORF:'' (c_str ib)" by (rule checkURC_pending_tag)
    from inv have wf: "length (cells (inputBuffer s)) = inputBufferSize" by (simp add: input_ready_def)
    from readLn_prefix [OF l wf that] obtain cs where cs:
      "map snd (rx s) = cs @ map snd (rx s0) \<or> map snd (rx s) = cs @ LF # map snd (rx s0)"
      "c_str ib = takeWhile (\<lambda>c. c \<noteq> NUL) (take len cs)"
      by blast
    from sw cs(2) have "startsWith ''+UUSORF:'' cs"
      by (metis startsWith_take startsWith_takeWhile)
    then have "occurs ''+UUSORF:'' (map snd (rx s))"
      using cs(1) by (metis startsWith_prefix startsWith_occurs)
    with inv show False by simp
  qed
  from st show ?thesis
  proof
    assume "s1 = ?s0"
    with ready no inv readLn_tables(2) [OF l] show ?thesis by simp
  next
    assume a: "0 < as_int len \<and> s1 = snd (checkURC cfg (c_str (inputBuffer ?s0)) ?s0)"
    with same have "socketPendingBytes s1 = socketPendingBytes ?s0" by simp
    with a ready no inv readLn_tables(2) [OF l] show ?thesis by simp
  qed
qed

lemma readResponse_pending:
  assumes "readResponse cfg ob m prefix timeout s = (r, ob', s')"
    and "input_ready s" "\<not> occurs ''+UUSORF:'' (map snd (rx s))"
  shows "socketPendingBytes s' = socketPendingBytes s"
proof -
  let ?I = "\<lambda>u. input_ready u \<and> \<not> occurs ''+UUSORF:'' (map snd (rx u)) \<and>
                socketPendingBytes u = socketPendingBytes s"
  from assms(1) have "readResponse_loop cfg m prefix timeout (now s)
      (map_option (\<lambda>b. poke b 0 NUL) ob, 0, s) = (r, ob', s')"
    by (simp add: readResponse_def)
  then have "?I s'"
  proof (rule readResponse_loop_invariant [where I = ?I])
    show "?I (snd (snd (map_option (\<lambda>b. poke b 0 NUL) ob, 0, s)))"
      using assms(2,3) by simp
  qed (rule readResponse_body_pending)
  then show ?thesis by simp
qed

lemma readResponse_loop_ok:
  "readResponse_loop cfg m prefix timeout from_ms st = (GSMResponseOK, ob', s') \<Longrightarrow>
     input_ready (snd (snd st)) \<Longrightarrow> occurs STR_RESPONSE_OK (map snd (rx (snd (snd st))))"
proof (induction cfg m prefix timeout from_ms st rule: readResponse_loop.induct)
  case (1 cfg m prefix timeout from_ms st)
  obtain ob n s where st: "st = (ob, n, s)" by (cases st)
  from "1.prems"(2) st have wf: "length (cells (inputBuffer s)) = inputBufferSize"
    by (simp add: input_ready_def)
  have nt: "\<not> is_timedout from_ms timeout s"
    using "1.prems"(1) st by (auto simp: readResponse_loop.simps split: if_splits)
  obtain x ob1 n1 s1 where b: "readResponse_body cfg m prefix (ob, n, s) = (x, ob1, n1, s1)"
    by (cases "readResponse_body cfg m prefix (ob, n, s)")
  obtain len ib s0 where l: "readLn (inputBuffer s) inputBufferSize 250 s = (len, ib, s0)"
    by (metis prod_cases3)
  let ?s0 = "s0\<lparr>inputBuffer := ib\<rparr>"
  from b l have rl: "readResponse_line cfg m prefix (as_int len) (ob, n, ?s0) = (x, ob1, n1, s1)"
    by (simp add: readResponse_body_def)
  have "0 < inputBufferSize" "inputBufferSize < 2 ^ 32" by (simp_all add: inputBufferSize_val)
  then obtain bs b1 where bs:
    "length bs \<le> inputBufferSize - 1" "LF \<notin> set bs"
    "map snd (rx s) = bs @ map snd (rx s0) \<or> map snd (rx s) = bs @ LF # map snd (rx s0)"
    "b1 = (if length bs < inputBufferSize - 1 then poke (pokes (inputBuffer s) 0 bs) (int (length bs)) NUL
           else pokes (inputBuffer s) 0 bs)"
    "len = (if peek b1 (as_int (size_sub (length bs) (Suc 0))) = CR
                  then size_sub (length bs) (Suc 0) else length bs)"
    "ib = poke b1 (as_int len) NUL"
    by (rule readLn_shape [OF l])
  have mono: "occurs STR_RESPONSE_OK (map snd (rx s0)) \<Longrightarrow> occurs STR_RESPONSE_OK (map snd (rx s))"
    using bs(3) occurs_suffix [of STR_RESPONSE_OK "map snd (rx s0)" bs]
      occurs_suffix [of STR_RESPONSE_OK "map snd (rx s0)" "bs @ [LF]"] by auto
  show ?case
  proof (cases x)
    case None
    with nt b "1.prems"(1) st
    have lp: "readResponse_loop cfg m prefix timeout from_ms (ob1, n1, s1) = (GSMResponseOK, ob', s')"
      by (simp add: readResponse_loop.simps)
    have "rx s1 = rx s0 \<and> inputBuffer s1 = ib"
      using readResponse_line_state [OF rl] by auto
    moreover have "input_ready ?s0" using wf bs(4,6) by (simp add: input_ready_def)
    ultimately have r1: "input_ready s1" "rx s1 = rx s0" by (simp_all add: input_ready_def)
    from "1.IH" [OF _ _ _ lp] nt b None st r1 have "occurs STR_RESPONSE_OK (map snd (rx s0))" by simp
    with mono st show ?thesis by simp
  next
    case (Some a)
    with nt b "1.prems"(1) st have "a = GSMResponseOK" by (simp add: readResponse_loop.simps)
    with Some rl have ok: "0 < as_int len" "startsWith STR_RESPONSE_OK (c_str ib)"
      by (auto simp: readResponse_line_def Let_def split: if_splits prod.splits)
    from readLn_prefix [OF l wf ok(1)] obtain cs where cs:
      "map snd (rx s) = cs @ map snd (rx s0) \<or> map snd (rx s) = cs @ LF # map snd (rx s0)"
      "c_str ib = takeWhile (\<lambda>c. c \<noteq> NUL) (take len cs)"
      by blast
    from ok(2) cs(2) have "startsWith STR_RESPONSE_OK cs"
      by (metis startsWith_take startsWith_takeWhile)
    then have "occurs STR_RESPONSE_OK (map snd (rx s))"
      using cs(1) by (metis startsWith_prefix startsWith_occurs)
    with st show ?thesis by simp
  qed
qed

lemma readResponse_ok:
  assumes "readResponse cfg ob m prefix timeout s = (GSMResponseOK, ob', s')" "input_ready s"
  shows "occurs STR_RESPONSE_OK (map snd (rx s))"
  using readResponse_loop_ok [of cfg m prefix timeout "now s" "(map_option (\<lambda>b. poke b 0 NUL) ob, 0, s)" ob' s'] assms
  by (simp add: readResponse_def)

text \<open>A notification and the final \<open>OK\<close>, for a command that asks for no payload.\<close>

lemma readResponse_notified:
  assumes q: "rx s = queued t [u, ''OK'']" "t \<le> now s" "input_ready s"
    and u: "fst (checkURC cfg u s)" "LF \<notin> set u" "NUL \<notin> set u" "length u \<le> 1021"
  shows "readResponse cfg None 0 None timeout s =
           (GSMResponseOK, None,
            after_line ''OK'' [] (snd (checkURC cfg u (after_line u (queued t [''OK'']) s))))"
proof -
  have c: "LF \<notin> set ''OK''" "NUL \<notin> set ''OK''" by (simp_all add: LF_def NUL_def)
  have nt: "\<not> is_timedout (now s) timeout s" by simp
  let ?s2' = "after_line u (queued t [''OK'']) s"
  let ?s2 = "snd (checkURC cfg u ?s2')"
  have u': "fst (checkURC cfg u ?s2')" using u(1) checkURC_fst by blast
  have 2: "readResponse_loop cfg 0 None timeout (now s) (None, 0, s)
         = readResponse_loop cfg 0 None timeout (now s) (None, 0, ?s2)"
    using readResponse_loop_line [OF q(1,2) u(2,4) q(3) [unfolded input_ready_def] nt]
      line_notification [of ?s2' u cfg None, OF _ u'] u(3)
    by simp
  let ?s4 = "after_line ''OK'' (queued t []) ?s2"
  have r2: "input_ready ?s2" using q(3) u(4) by simp
  have 4: "readResponse_loop cfg 0 None timeout (now s) (None, 0, ?s2) = (GSMResponseOK, None, ?s4)"
    using readResponse_loop_line [of ?s2 t "''OK''" _ "now s" timeout, OF _ _ c(1) _ r2 [unfolded input_ready_def]]
      line_ok [of ?s4 "''OK''"] c(2) q(2) nt
    by (simp add: startsWith_def STR_AT_def STR_RESPONSE_OK_def)
  from 2 4 show ?thesis by (simp add: readResponse_def)
qed

subsection \<open>A reply read without a prefix\<close>

lemma checkURC_not_handled: "\<not> fst (checkURC cfg line s) \<Longrightarrow> snd (checkURC cfg line s) = s"
  by (auto simp: checkURC_def Let_def split: if_splits)

lemma append_line_False:
  "append_line m False pre ib count ob n = append_line m True [] ib count ob n"
  by (simp add: append_line_def as_int_def)

lemma line_plain:
  assumes "c_str (inputBuffer s) = l" "l \<noteq> []" "0 < m"
    and "\<not> startsWith STR_AT l" "\<not> startsWith STR_RESPONSE_OK l"
    "\<not> startsWith STR_RESPONSE_ERROR l" "\<not> startsWith STR_RESPONSE_CME_ERROR l"
    "\<not> startsWith STR_RESPONSE_CMS_ERROR l"
    and "\<not> fst (checkURC cfg l s)"
  shows "readResponse_line cfg m None (int (length l)) (Some ob, n, s) =
           (case append_line m True [] (inputBuffer s) (int (length l)) ob n of
              (ob', n') \<Rightarrow> (None, Some ob', n', s))"
  using assms checkURC_not_handled [OF assms(9)]
  by (simp add: readResponse_line_def Let_def append_line_False)

text \<open>A reply of one line and the final \<open>OK\<close>, read without a prefix.\<close>

lemma readResponse_plain_reply:
  assumes q: "rx s = queued t [l, ''OK'']" "t \<le> now s" "input_ready s"
    and l: "l \<noteq> []"
      "\<not> startsWith STR_AT l" "\<not> startsWith STR_RESPONSE_OK l"
      "\<not> startsWith STR_RESPONSE_ERROR l" "\<not> startsWith STR_RESPONSE_CME_ERROR l"
      "\<not> startsWith STR_RESPONSE_CMS_ERROR l" "\<not> fst (checkURC cfg l s)"
    and clean: "LF \<notin> set l" "NUL \<notin> set l" "length l \<le> 1021"
    and cap: "length (cells ob) = m" "length l < m" "m \<le> 2 ^ 31"
  shows "readResponse cfg (Some ob) m None timeout s =
           (GSMResponseOK, Some (ob\<lparr>cells := l @ NUL # drop (Suc (length l)) (cells ob)\<rparr>),
            after_line ''OK'' [] (after_line l (queued t [''OK'']) s))"
proof -
  let ?ob0 = "poke ob 0 NUL"
  have m0: "0 < m" using cap by simp
  have ob0: "?ob0 = ob\<lparr>cells := (cells ob)[0 := NUL]\<rparr>"
    using poke_nat [of 0 ob NUL] cap m0 by simp
  have c: "LF \<notin> set ''OK''" "NUL \<notin> set ''OK''" by (simp_all add: LF_def NUL_def)
  have nt: "\<not> is_timedout (now s) timeout s" by simp
  let ?s3 = "after_line l (queued t [''OK'']) s"
  let ?ob1 = "?ob0\<lparr>cells := l @ NUL # drop (Suc (length l)) (cells ?ob0)\<rparr>"
  have tk: "take (length ([] :: string) + length l) (cells (inputBuffer ?s3)) = [] @ l"
    using take_after_line [of l s] q(3) clean(3) by (simp add: input_ready_def inputBufferSize_val)
  have "append_line m True [] (inputBuffer ?s3) (int (length ([] :: string) + length l)) ?ob0 0 = (?ob1, length l)"
    using cap m0 clean(3) by (intro append_line_first tk) (simp_all add: ob0)
  then have ap: "append_line m True [] (inputBuffer ?s3) (int (length l)) ?ob0 0 = (?ob1, length l)" by simp
  have nu: "\<not> fst (checkURC cfg l ?s3)" using l(7) checkURC_fst by blast
  have 3: "readResponse_loop cfg m None timeout (now s) (Some ?ob0, 0, s)
         = readResponse_loop cfg m None timeout (now s) (Some ?ob1, length l, ?s3)"
    using readResponse_loop_line [OF q(1,2) clean(1,3) q(3) [unfolded input_ready_def] nt]
      line_plain [of ?s3 l m cfg ?ob0 0, OF _ l(1) m0 l(2-6) nu] clean(2) ap
    by simp
  let ?s4 = "after_line ''OK'' (queued t []) ?s3"
  have r3: "input_ready ?s3" using q(3) clean(3) by simp
  have 4: "readResponse_loop cfg m None timeout (now s) (Some ?ob1, length l, ?s3)
         = (GSMResponseOK, Some ?ob1, ?s4)"
    using readResponse_loop_line [of ?s3 t "''OK''" _ "now s" timeout, OF _ _ c(1) _ r3 [unfolded input_ready_def]]
      line_ok [of ?s4 "''OK''"] c(2) q(2) nt
    by (simp add: startsWith_def STR_AT_def STR_RESPONSE_OK_def)
  have "drop (Suc (length l)) ((cells ob)[0 := NUL]) = drop (Suc (length l)) (cells ob)"
    by (cases "cells ob") simp_all
  then have "?ob1 = ob\<lparr>cells := l @ NUL # drop (Suc (length l)) (cells ob)\<rparr>"
    by (simp add: ob0)
  with 3 4 show ?thesis by (simp add: readResponse_def)
qed

subsection \<open>Two lines of payload\<close>

lemma readResponse_loop_plain:
  assumes q: "rx s = queued t (l # ls)" "t \<le> now s" "input_ready s"
    and nt: "\<not> is_timedout from_ms timeout s"
    and l: "plain_line cfg s l" and m: "0 < m"
  shows "readResponse_loop cfg m None timeout from_ms (Some ob, n, s) =
           readResponse_loop cfg m None timeout from_ms
             (Some (fst (append_line m True [] (inputBuffer (after_line l (queued t ls) s)) (int (length l)) ob n)),
              snd (append_line m True [] (inputBuffer (after_line l (queued t ls) s)) (int (length l)) ob n),
              after_line l (queued t ls) s)"
proof -
  let ?s3 = "after_line l (queued t ls) s"
  have p: "l \<noteq> []" "LF \<notin> set l" "NUL \<notin> set l" "length l \<le> 1021"
    "\<not> startsWith STR_AT l" "\<not> startsWith STR_RESPONSE_OK l"
    "\<not> startsWith STR_RESPONSE_ERROR l" "\<not> startsWith STR_RESPONSE_CME_ERROR l"
    "\<not> startsWith STR_RESPONSE_CMS_ERROR l" "\<not> fst (checkURC cfg l s)"
    using l by (simp_all add: plain_line_def)
  have nu: "\<not> fst (checkURC cfg l ?s3)" using p(10) checkURC_fst by blast
  show ?thesis
    using readResponse_loop_line [OF q(1,2) p(2,4) q(3) [unfolded input_ready_def] nt]
      line_plain [of ?s3 l m cfg ob n, OF _ p(1) m p(5-9) nu] p(3)
    by (simp add: case_prod_beta)
qed

lemma readResponse_loop_OK:
  assumes q: "rx s = queued t (''OK'' # ls)" "t \<le> now s" "input_ready s"
    and nt: "\<not> is_timedout from_ms timeout s"
  shows "readResponse_loop cfg m prefix timeout from_ms (ob, n, s) =
           (GSMResponseOK, ob, after_line ''OK'' (queued t ls) s)"
proof -
  have c: "LF \<notin> set ''OK''" "NUL \<notin> set ''OK''" by (simp_all add: LF_def NUL_def)
  show ?thesis
    using readResponse_loop_line [of s t "''OK''" ls from_ms timeout, OF q(1,2) c(1) _ q(3) [unfolded input_ready_def] nt]
      line_ok [of "after_line ''OK'' (queued t ls) s" "''OK''"] c(2)
    by (simp add: startsWith_def STR_AT_def STR_RESPONSE_OK_def)
qed

text \<open>A line appended when \<open>outSize\<close> is two below the capacity.\<close>

lemma append_line_last_cell:
  assumes "length (cells ob) = m" "3 \<le> m" "m \<le> 2 ^ 31"
  shows "append_line m hp pre ib count ob (m - 2) = (ob\<lparr>cells := (cells ob)[m - 2 := LF]\<rparr>, m - 1)"
proof -
  have m1: "size_sub m 1 = m - 1" using assms by (simp add: size_sub_le)
  have ai: "as_int (m - 2) = int (m - 2)" using assms by (simp add: as_int_small)
  have sa: "size_add (m - 2) 1 = m - 1" using assms by (simp add: size_add_def)
  have pk: "poke ob (int (m - 2)) LF = ob\<lparr>cells := (cells ob)[m - 2 := LF]\<rparr>"
    using assms by (intro poke_nat) simp
  have "0 < m - 2" "m - 2 < m - 1" using assms by simp_all
  then show ?thesis
    unfolding append_line_def m1 ai sa pk by simp
qed

lemma readResponse_two_lines:
  assumes q: "rx s = queued t [l1, l2, ''OK'']" "t \<le> now s" "input_ready s"
    and l: "plain_line cfg s l1" "plain_line cfg s l2"
    and cap: "length (cells ob) = m" "3 \<le> m" "m \<le> 2 ^ 31" "length l1 = m - 2"
  shows "readResponse cfg (Some ob) m None timeout s =
           (GSMResponseOK, Some (ob\<lparr>cells := l1 @ [LF, last (cells ob)]\<rparr>),
            after_line ''OK'' [] (after_line l2 (queued t [''OK'']) (after_line l1 (queued t [l2, ''OK'']) s)))"
proof -
  let ?ob0 = "poke ob 0 NUL"
  have m0: "0 < m" using cap by simp
  have ob0: "?ob0 = ob\<lparr>cells := (cells ob)[0 := NUL]\<rparr>"
    using poke_nat [of 0 ob NUL] cap m0 by simp
  have p1: "length l1 \<le> 1021" "NUL \<notin> set l1" using l(1) by (simp_all add: plain_line_def)
  have p2: "length l2 \<le> 1021" using l(2) by (simp_all add: plain_line_def)
  let ?s1 = "after_line l1 (queued t [l2, ''OK'']) s"
  let ?s2 = "after_line l2 (queued t [''OK'']) ?s1"
  let ?ob1 = "?ob0\<lparr>cells := l1 @ NUL # drop (Suc (length l1)) (cells ?ob0)\<rparr>"
  have tk: "take (length ([] :: string) + length l1) (cells (inputBuffer ?s1)) = [] @ l1"
    using take_after_line [of l1 s] q(3) p1(1) by (simp add: input_ready_def inputBufferSize_val)
  have "append_line m True [] (inputBuffer ?s1) (int (length ([] :: string) + length l1)) ?ob0 0 = (?ob1, length l1)"
    using cap m0 p1(1) by (intro append_line_first tk) (simp_all add: ob0)
  then have ap1: "append_line m True [] (inputBuffer ?s1) (int (length l1)) ?ob0 0 = (?ob1, m - 2)"
    using cap by simp
  have len1: "length (cells ?ob1) = m" using cap by (simp add: ob0)
  have ap2: "append_line m True [] (inputBuffer ?s2) (int (length l2)) ?ob1 (m - 2)
      = (?ob1\<lparr>cells := (cells ?ob1)[m - 2 := LF]\<rparr>, m - 1)"
    by (rule append_line_last_cell [OF len1 cap(2,3)])
  have l2': "plain_line cfg ?s1 l2"
    using l(2) checkURC_fst [of cfg l2 s ?s1] by (simp add: plain_line_def)
  have r1: "input_ready ?s1" using q(3) p1(1) by simp
  have r2: "input_ready ?s2" using r1 p2 by simp
  have 1: "readResponse_loop cfg m None timeout (now s) (Some ?ob0, 0, s)
         = readResponse_loop cfg m None timeout (now s) (Some ?ob1, m - 2, ?s1)"
    using readResponse_loop_plain [OF q(1,2,3) _ l(1) m0, of "now s" timeout ?ob0 0] ap1 by simp
  have 2: "readResponse_loop cfg m None timeout (now s) (Some ?ob1, m - 2, ?s1)
         = readResponse_loop cfg m None timeout (now s)
             (Some (?ob1\<lparr>cells := (cells ?ob1)[m - 2 := LF]\<rparr>), m - 1, ?s2)"
    using readResponse_loop_plain [of ?s1 t l2 "[''OK'']" "now s" timeout cfg m ?ob1 "m - 2", OF _ _ r1 _ l2' m0]
      q(2) ap2 by simp
  have 3: "readResponse_loop cfg m None timeout (now s)
             (Some (?ob1\<lparr>cells := (cells ?ob1)[m - 2 := LF]\<rparr>), m - 1, ?s2)
         = (GSMResponseOK, Some (?ob1\<lparr>cells := (cells ?ob1)[m - 2 := LF]\<rparr>), after_line ''OK'' [] ?s2)"
    using readResponse_loop_OK [of ?s2 t "[]" "now s" timeout cfg m None, OF _ _ r2] q(2) by simp
  have ne: "cells ob \<noteq> []" using cap by auto
  have "drop (m - 1) (cells ob) = [last (cells ob)]"
    using cap ne by (metis One_nat_def append_butlast_last_id append_eq_conv_conj length_butlast)
  moreover have "drop (Suc (length l1)) ((cells ob)[0 := NUL]) = drop (m - 1) (cells ob)"
  proof -
    from cap obtain k where k: "m = Suc (Suc (Suc k))" by (metis Suc_le_D numeral_3_eq_3 Suc_le_mono)
    then show ?thesis using cap by (simp add: drop_update_cancel)
  qed
  ultimately have "(cells ?ob1)[m - 2 := LF] = l1 @ [LF, last (cells ob)]"
    using cap by (simp add: ob0 list_update_append)
  then have "?ob1\<lparr>cells := (cells ?ob1)[m - 2 := LF]\<rparr> = ob\<lparr>cells := l1 @ [LF, last (cells ob)]\<rparr>"
    by (simp add: ob0)
  with 1 2 3 show ?thesis by (simp add: readResponse_def)
qed

subsection \<open>The read command of \<^verbatim>\<open>socketReceive\<close>\<close>

text \<open>
  Claim C2. With bytes pending for the session, \<^verbatim>\<open>socketReceive\<close> writes exactly
  \<^verbatim>\<open>AT+USORF=<id>\<close> and a carriage return to the modem, whatever the capacity of the
  caller's buffer and whatever the number of pending bytes: the minimum that it computes
  is not part of the command, which asks for no number of bytes.
\<close>

theorem socketReceive_command:
  assumes "socketHasPendingBytes socketID s"
  shows "tx (snd (snd (socketReceive cfg socketID buffer bsize s)))
           = tx s @ ''AT+USORF='' @ dec (unat socketID) @ [CR]"
proof -
  let ?s1 = "println_num (unat socketID) (print_str ''AT+USORF='' s)"
  obtain r ob s2 where rr:
    "readResponse cfg (Some (local_array (SODAQ_N3X_MAX_UDP_BUFFER cfg)))
        (SODAQ_N3X_MAX_UDP_BUFFER cfg) None (DEFAULT_READ_MS cfg) ?s1 = (r, ob, s2)"
    by (metis prod_cases3)
  have t2: "tx s2 = tx ?s1" using readResponse_tx [OF rr] by simp
  have "tx (snd (snd (socketReceive cfg socketID buffer bsize s))) = tx s2"
    using assms rr by (simp add: socketReceive_def Let_def)
  with t2 show ?thesis by (simp add: println_num_def)
qed

lemma dec_0: "dec 0 = ''0''"
  by code_simp

theorem socketReceive_command_witness:
  "socketHasPendingBytes 0 (with_pending 0 5 (initial_modem 7 [])) \<and>
   tx (snd (snd (socketReceive example_config 0 None 3 (with_pending 0 5 (initial_modem 7 [])))))
     = ''AT+USORF=0'' @ [CR]"
proof -
  have h: "socketHasPendingBytes 0 (with_pending 0 5 (initial_modem 7 []))"
    by (simp add: socketHasPendingBytes_def with_pending_def initial_modem_def peek_poke)
  show ?thesis
    using h socketReceive_command [OF h, of example_config None 3]
    by (simp add: with_pending_def initial_modem_def dec_0)
qed

subsection \<open>Error lines\<close>

text \<open>
  Claim C3, as amended. With only the line \<^verbatim>\<open>ERROR\<close> in the queue, or only the line
  \<^verbatim>\<open>+CME ERROR: 10\<close>, \<^verbatim>\<open>readResponse\<close> returns \<open>GSMResponseError\<close>, whatever the output
  buffer, the prefix and the timeout: the same value for both lines. The response type has
  no device-specific variant and the number after the marker is not read.
\<close>

theorem readResponse_error_outcomes:
  assumes "rx s = queued t [''ERROR''] \<or> rx s = queued t [''+CME ERROR: 10'']"
    and "t \<le> now s" "input_ready s"
  shows "fst (readResponse cfg ob m prefix timeout s) = GSMResponseError"
proof -
  have c: "LF \<notin> set ''ERROR''" "NUL \<notin> set ''ERROR''" "LF \<notin> set ''+CME ERROR: 10''" "NUL \<notin> set ''+CME ERROR: 10''"
    by (simp_all add: LF_def NUL_def)
  from assms(1) show ?thesis
  proof
    assume "rx s = queued t [''ERROR'']"
    from readResponse_error_line [OF this assms(2,3) c(1,2)] show ?thesis
      by (simp add: startsWith_def STR_RESPONSE_ERROR_def)
  next
    assume "rx s = queued t [''+CME ERROR: 10'']"
    from readResponse_error_line [OF this assms(2,3) c(3,4)] show ?thesis
      by (simp add: startsWith_def STR_RESPONSE_CME_ERROR_def)
  qed
qed

theorem readResponse_error_outcomes_witness:
  "fst (readResponse example_config None 0 None 1000 (initial_modem 7 (queued 0 [''+CME ERROR: 10''])))
     = GSMResponseError"
  using readResponse_error_outcomes [of "initial_modem 7 (queued 0 [''+CME ERROR: 10''])" 0 example_config None 0 None 1000]
  by simp

text \<open>
  The claim as stated does not hold: the outcome for \<^verbatim>\<open>+CME ERROR: 10\<close> is the outcome
  for \<^verbatim>\<open>ERROR\<close>, so it neither tells the two apart nor carries the code.
\<close>

theorem readResponse_error_code_dropped:
  "fst (readResponse example_config None 0 None 1000 (initial_modem 7 (queued 0 [''+CME ERROR: 10''])))
     = fst (readResponse example_config None 0 None 1000 (initial_modem 7 (queued 0 [''ERROR''])))"
proof -
  have c: "LF \<notin> set ''ERROR''" "NUL \<notin> set ''ERROR''" "LF \<notin> set ''+CME ERROR: 10''" "NUL \<notin> set ''+CME ERROR: 10''"
    by (simp_all add: LF_def NUL_def)
  have "fst (readResponse example_config None 0 None 1000 (initial_modem 7 (queued 0 [''+CME ERROR: 10'']))) = GSMResponseError"
    using readResponse_error_line [OF _ _ _ c(3,4), of "initial_modem 7 (queued 0 [''+CME ERROR: 10''])" 0 "[]" example_config None 0 None 1000]
    by (simp add: startsWith_def STR_RESPONSE_CME_ERROR_def)
  moreover have "fst (readResponse example_config None 0 None 1000 (initial_modem 7 (queued 0 [''ERROR'']))) = GSMResponseError"
    using readResponse_error_line [OF _ _ _ c(1,2), of "initial_modem 7 (queued 0 [''ERROR''])" 0 "[]" example_config None 0 None 1000]
    by (simp add: startsWith_def STR_RESPONSE_ERROR_def)
  ultimately show ?thesis by simp
qed

subsection \<open>A payload between an echo, a notification and the final line\<close>

text \<open>
  Claim C5. The queue holds an echoed command \<open>e\<close> (a line that starts with \<^verbatim>\<open>AT\<close>), a
  notification \<open>u\<close> that the dispatcher recognizes, the line \<^verbatim>\<open>+PREFIX: \<close> followed by the
  payload \<open>p\<close>, and \<^verbatim>\<open>OK\<close>. Called with the prefix \<^verbatim>\<open>+PREFIX: \<close> and an output buffer
  that has room for \<open>p\<close> and its NUL, \<open>readResponse\<close> returns \<open>GSMResponseOK\<close>; the string
  in the output buffer is exactly \<open>p\<close> (neither \<open>e\<close> nor \<open>u\<close> is part of it), and no byte
  is written outside the buffer.
\<close>

theorem readResponse_prefixed_payload:
  assumes q: "rx s = queued t [e, u, ''+PREFIX: '' @ p, ''OK'']" "t \<le> now s" "input_ready s"
    and e: "startsWith STR_AT e" and u: "fst (checkURC cfg u s)"
    and clean: "\<forall>l \<in> {e, u, p}. LF \<notin> set l \<and> NUL \<notin> set l \<and> length l \<le> 1000"
    and cap: "length (cells ob) = m" "length p < m" "m \<le> 2 ^ 31" "\<not> stray ob"
  shows "\<exists>ob' s'. readResponse cfg (Some ob) m (Some ''+PREFIX: '') timeout s = (GSMResponseOK, Some ob', s') \<and>
           c_str ob' = p \<and> \<not> stray ob' \<and> length (cells ob') = m"
proof -
  let ?pre = "''+PREFIX: ''"
  let ?ob0 = "poke ob 0 NUL"
  have m0: "0 < m" using cap by simp
  have ob0: "?ob0 = ob\<lparr>cells := (cells ob)[0 := NUL]\<rparr>"
    using poke_nat [of 0 ob NUL] cap m0 by simp
  have c: "LF \<notin> set e" "NUL \<notin> set e" "length e \<le> 1021" "LF \<notin> set u" "NUL \<notin> set u" "length u \<le> 1021"
    "LF \<notin> set (?pre @ p)" "NUL \<notin> set (?pre @ p)" "length (?pre @ p) \<le> 1021"
    "LF \<notin> set ''OK''" "NUL \<notin> set ''OK''"
    using clean by (auto simp: LF_def NUL_def)
  have nt: "\<not> is_timedout (now s) timeout s" by simp
  \<comment> \<open>the echoed command\<close>
  let ?s1 = "after_line e (queued t [u, ?pre @ p, ''OK'']) s"
  have 1: "readResponse_loop cfg m (Some ?pre) timeout (now s) (Some ?ob0, 0, s)
         = readResponse_loop cfg m (Some ?pre) timeout (now s) (Some ?ob0, 0, ?s1)"
    using readResponse_loop_line [OF q(1,2) c(1,3) q(3) [unfolded input_ready_def] nt]
      line_echo [of ?s1 e, OF _ e] c(2)
    by simp
  \<comment> \<open>the notification\<close>
  let ?s2' = "after_line u (queued t [?pre @ p, ''OK'']) ?s1"
  let ?s2 = "snd (checkURC cfg u ?s2')"
  have r1: "input_ready ?s1" using q(3) c(3) by simp
  have u': "fst (checkURC cfg u ?s2')" using u checkURC_fst by blast
  have 2: "readResponse_loop cfg m (Some ?pre) timeout (now s) (Some ?ob0, 0, ?s1)
         = readResponse_loop cfg m (Some ?pre) timeout (now s) (Some ?ob0, 0, ?s2)"
    using readResponse_loop_line [of ?s1 t u _ "now s" timeout, OF _ _ c(4,6) r1 [unfolded input_ready_def]]
      line_notification [of ?s2' u cfg "Some ?pre", OF _ u'] c(5) q(2) nt
    by simp
  \<comment> \<open>the line with the prefix\<close>
  let ?s3 = "after_line (?pre @ p) (queued t [''OK'']) ?s2"
  let ?ob1 = "?ob0\<lparr>cells := p @ NUL # drop (Suc (length p)) (cells ?ob0)\<rparr>"
  have r2: "input_ready ?s2" using r1 c(6) by simp
  have tk: "take (length ?pre + length p) (cells (inputBuffer ?s3)) = ?pre @ p"
    using take_after_line [of "?pre @ p" ?s2] r2 c(9) by (simp add: input_ready_def inputBufferSize_val)
  have ap: "append_line m True ?pre (inputBuffer ?s3) (int (length ?pre + length p)) ?ob0 0 = (?ob1, length p)"
    using cap m0 c(9) by (intro append_line_first tk) (simp_all add: ob0)
  have 3: "readResponse_loop cfg m (Some ?pre) timeout (now s) (Some ?ob0, 0, ?s2)
         = readResponse_loop cfg m (Some ?pre) timeout (now s) (Some ?ob1, length p, ?s3)"
    using readResponse_loop_line [of ?s2 t "?pre @ p" _ "now s" timeout, OF _ _ c(7,9) r2 [unfolded input_ready_def]]
      line_prefixed [of ?s3 ?pre p m cfg ?ob0 0] c(8) q(2) nt m0 ap
    by (simp add: startsWith_def STR_AT_def STR_RESPONSE_OK_def STR_RESPONSE_ERROR_def
        STR_RESPONSE_CME_ERROR_def STR_RESPONSE_CMS_ERROR_def)
  \<comment> \<open>the final line\<close>
  let ?s4 = "after_line ''OK'' (queued t []) ?s3"
  have r3: "input_ready ?s3" using r2 c(9) by simp
  have 4: "readResponse_loop cfg m (Some ?pre) timeout (now s) (Some ?ob1, length p, ?s3)
         = (GSMResponseOK, Some ?ob1, ?s4)"
    using readResponse_loop_line [of ?s3 t "''OK''" _ "now s" timeout, OF _ _ c(10) _ r3 [unfolded input_ready_def]]
      line_ok [of ?s4 "''OK''"] c(11) q(2) nt
    by (simp add: startsWith_def STR_AT_def STR_RESPONSE_OK_def)
  have "readResponse cfg (Some ob) m (Some ?pre) timeout s = (GSMResponseOK, Some ?ob1, ?s4)"
    using 1 2 3 4 by (simp add: readResponse_def)
  moreover have "c_str ?ob1 = p" using c(8) by (auto simp: c_str_def takeWhile_tail)
  moreover have "\<not> stray ?ob1" "length (cells ?ob1) = m" using cap by (simp_all add: ob0)
  ultimately show ?thesis by blast
qed

lemma sscanf_UUSORF_0_5:
  "sscanf ''+UUSORF: 0,5'' ''+UUSORF: %d,%d'' = (2, [IntV 0, IntV 5])"
  "fst (sscanf ''+UUSORF: 0,5'' ''+UFOTAS: %d,%d'') = 0"
  by code_simp+

theorem readResponse_prefixed_payload_witness:
  "fst (readResponse example_config (Some (filled_array 16 CR)) 16 (Some ''+PREFIX: '') 1000
          (initial_modem 7 (queued 0 [''AT+CSQ'', ''+UUSORF: 0,5'', ''+PREFIX: payload'', ''OK''])))
     = GSMResponseOK \<and>
   map_option c_str (fst (snd (readResponse example_config (Some (filled_array 16 CR)) 16 (Some ''+PREFIX: '') 1000
          (initial_modem 7 (queued 0 [''AT+CSQ'', ''+UUSORF: 0,5'', ''+PREFIX: payload'', ''OK''])))))
     = Some ''payload''"
proof -
  let ?s = "initial_modem 7 (queued 0 [''AT+CSQ'', ''+UUSORF: 0,5'', ''+PREFIX: payload'', ''OK''])"
  have u: "fst (checkURC example_config ''+UUSORF: 0,5'' ?s)"
    by (simp add: checkURC_def sscanf_UUSORF_0_5 Let_def)
  have "\<exists>ob' s'. readResponse example_config (Some (filled_array 16 CR)) 16 (Some ''+PREFIX: '') 1000 ?s
           = (GSMResponseOK, Some ob', s') \<and> c_str ob' = ''payload'' \<and> \<not> stray ob' \<and> length (cells ob') = 16"
    using u
    by (intro readResponse_prefixed_payload [where t = 0 and e = "''AT+CSQ''" and u = "''+UUSORF: 0,5''"])
      (simp_all add: startsWith_def STR_AT_def LF_def NUL_def filled_array_def)
  then show ?thesis by auto
qed

subsection \<open>Creating a session\<close>

lemma sscanf_digit:
  "sscanf ''3'' ''%d'' = (1, [IntV 3])" "sscanf ''7'' ''%d'' = (1, [IntV 7])"
  by code_simp+

lemma socketCreate_session_3:
  assumes "rx s = queued t [''+USOCR: 3'', ''OK'']" "t \<le> now s" "input_ready s" "3 \<le> SOCKET_COUNT cfg"
  shows "fst (socketCreate cfg localPort protocol s) = 3 \<and>
         peek (socketClosedBit (snd (socketCreate cfg localPort protocol s))) 3 = True \<and>
         peek (socketPendingBytes (snd (socketCreate cfg localPort protocol s))) 3 = 0"
proof -
  have "rx s = queued t [''+USOCR: '' @ ''3'', ''OK'']" using assms(1) by simp
  from socketCreate_reply [OF this assms(2,3) _ _ _ sscanf_digit(1), of cfg localPort protocol] assms(4)
  show ?thesis by (auto simp: LF_def NUL_def peek_poke)
qed

text \<open>
  Claim C4. The claim holds for the reply \<^verbatim>\<open>+USOCR: 3\<close> (\<open>socketCreate_session_3\<close>), but not
  for every reply: \<open>socketCreate\<close> compares with \<^verbatim>\<open>socketID > SOCKET_COUNT\<close>, so with seven
  sessions the reply \<^verbatim>\<open>+USOCR: 7\<close> is accepted. The result is 7, which is no session id,
  and both table writes land outside the tables.
\<close>

theorem socketCreate_accepts_SOCKET_COUNT:
  "fst (socketCreate example_config 0 UDP (initial_modem 7 (queued 0 [''+USOCR: 7'', ''OK'']))) = 7 \<and>
   stray (socketClosedBit (snd (socketCreate example_config 0 UDP (initial_modem 7 (queued 0 [''+USOCR: 7'', ''OK''])))))
   \<and>
   stray (socketPendingBytes (snd (socketCreate example_config 0 UDP (initial_modem 7 (queued 0 [''+USOCR: 7'', ''OK''])))))"
proof -
  let ?s = "initial_modem 7 (queued 0 [''+USOCR: 7'', ''OK''])"
  have "rx ?s = queued 0 [''+USOCR: '' @ ''7'', ''OK'']" by simp
  from socketCreate_reply [OF this _ _ _ _ _ sscanf_digit(2), of example_config 0 UDP]
  obtain s' where s': "socketClosedBit s' = socketClosedBit ?s" "socketPendingBytes s' = socketPendingBytes ?s"
    "socketCreate example_config 0 UDP ?s =
       (7, s'\<lparr>socketClosedBit := poke (socketClosedBit s') 7 True,
                 socketPendingBytes := poke (socketPendingBytes s') 7 0\<rparr>)"
    by (auto simp: LF_def NUL_def example_config_def)
  have "\<not> in_cells (socketClosedBit ?s) 7" "\<not> in_cells (socketPendingBytes ?s) 7"
    by (simp_all add: in_cells_def initial_modem_def)
  with s' show ?thesis by (simp add: stray_poke)
qed

theorem socketCreate_accepts_SOCKET_COUNT_witness:
  "fst (socketCreate example_config 0 UDP (initial_modem 7 (queued 0 [''+USOCR: 7'', ''OK''])))
     = int (SOCKET_COUNT example_config)"
  using socketCreate_accepts_SOCKET_COUNT by (simp add: example_config_def)

subsection \<open>A close that the modem acknowledges at once\<close>

lemma readResponse_OK_only:
  assumes "rx s = queued t [''OK'']" "t \<le> now s" "input_ready s"
  shows "readResponse cfg None m prefix timeout s = (GSMResponseOK, None, after_line ''OK'' [] s)"
  using readResponse_loop_OK [of s t "[]" "now s" timeout cfg m prefix None 0] assms
  by (simp add: readResponse_def)


subsection \<open>A reply of two bytes\<close>

text \<open>
  What \<open>socketReceive\<close> does to an entry of the table when the modem never sends
  \<^verbatim>\<open>+UUSORF:\<close>, and a reply of \<^verbatim>\<open>AT+USORF\<close> that carries two bytes.
\<close>

lemma socketReceive_pending:
  assumes "input_ready s" "\<not> occurs ''+UUSORF:'' (map snd (rx s))"
  shows "peek (socketPendingBytes (snd (snd (socketReceive cfg socketID buffer bsize s)))) i =
           (if i = uint socketID
            then peek (socketPendingBytes s) i - of_nat (fst (socketReceive cfg socketID buffer bsize s))
            else peek (socketPendingBytes s) i)"
proof (cases "socketHasPendingBytes socketID s")
  case False
  then show ?thesis by (simp add: socketReceive_def)
next
  case True
  let ?s1 = "println_num (unat socketID) (print_str ''AT+USORF='' s)"
  obtain r ob s2 where rr:
    "readResponse cfg (Some (local_array (SODAQ_N3X_MAX_UDP_BUFFER cfg)))
        (SODAQ_N3X_MAX_UDP_BUFFER cfg) None (DEFAULT_READ_MS cfg) ?s1 = (r, ob, s2)"
    by (metis prod_cases3)
  have "input_ready ?s1" "\<not> occurs ''+UUSORF:'' (map snd (rx ?s1))"
    using assms by (simp_all add: input_ready_def)
  from readResponse_pending [OF rr this]
  have p2: "socketPendingBytes s2 = socketPendingBytes s" by simp
  show ?thesis
    using True rr p2 by (simp add: socketReceive_def Let_def peek_poke)
qed

lemma socketReceive_reply:
  assumes q: "rx s = queued t [l, ''OK'']" "t \<le> now s" "input_ready s"
    and p: "socketHasPendingBytes socketID s"
    and l: "l \<noteq> []"
      "\<not> startsWith STR_AT l" "\<not> startsWith STR_RESPONSE_OK l"
      "\<not> startsWith STR_RESPONSE_ERROR l" "\<not> startsWith STR_RESPONSE_CME_ERROR l"
      "\<not> startsWith STR_RESPONSE_CMS_ERROR l" "\<And>v. \<not> fst (checkURC cfg l v)"
    and clean: "LF \<notin> set l" "NUL \<notin> set l" "length l \<le> 1021"
    and cap: "length l < SODAQ_N3X_MAX_UDP_BUFFER cfg" "SODAQ_N3X_MAX_UDP_BUFFER cfg \<le> 2 ^ 31"
    and sc: "sscanf l ''+USORF: %d,\"%*[^\"]\",%*d,%d,\"%[^\"]\"'' = (3, [IntV sid, IntV n, StrV pl])"
      "0 \<le> sint sid" "sint sid < int (SOCKET_COUNT cfg)"
  shows "fst (socketReceive cfg socketID buffer bsize s) = unat n"
proof -
  let ?m = "SODAQ_N3X_MAX_UDP_BUFFER cfg"
  let ?s1 = "println_num (unat socketID) (print_str ''AT+USORF='' s)"
  have s1: "rx ?s1 = queued t [l, ''OK'']" "t \<le> now ?s1" "input_ready ?s1"
    using q by (simp_all add: input_ready_def)
  let ?b = "(local_array ?m)\<lparr>cells := l @ NUL # drop (Suc (length l)) (cells (local_array ?m))\<rparr>"
  have rr: "readResponse cfg (Some (local_array ?m)) ?m None (DEFAULT_READ_MS cfg) ?s1
      = (GSMResponseOK, Some ?b, after_line ''OK'' [] (after_line l (queued t [''OK'']) ?s1))"
    using clean cap l by (intro readResponse_plain_reply s1) (simp_all add: local_array_def)
  have cs: "c_str ?b = l" using clean(2) by (auto simp: c_str_def takeWhile_tail)
  show ?thesis
    unfolding socketReceive_def Let_def rr using p sc(2,3)
    by (simp add: cs sc(1) int_arg_def del: after_line_simps)
qed

lemma sscanf_USORF_reply:
  "sscanf ''+USORF: 0,\"1.2.3.4\",80,2,\"A1B2\"'' ''+USORF: %d,\"%*[^\"]\",%*d,%d,\"%[^\"]\"''
     = (3, [IntV 0, IntV 2, StrV ''A1B2''])"
  "fst (sscanf ''+USORF: 0,\"1.2.3.4\",80,2,\"A1B2\"'' ''+UFOTAS: %d,%d'') = 0"
  "fst (sscanf ''+USORF: 0,\"1.2.3.4\",80,2,\"A1B2\"'' ''+UUSORF: %d,%d'') = 0"
  "fst (sscanf ''+USORF: 0,\"1.2.3.4\",80,2,\"A1B2\"'' ''+UUSOCL: %d'') = 0"
  "fst (sscanf ''+USORF: 0,\"1.2.3.4\",80,2,\"A1B2\"'' ''+CSCON: %d'') = 0"
  by code_simp+

lemma socketReceive_example:
  assumes "rx s = queued t [''+USORF: 0,\"1.2.3.4\",80,2,\"A1B2\"'', ''OK'']" "t \<le> now s" "input_ready s"
    and "socketHasPendingBytes socketID s"
  shows "fst (socketReceive example_config socketID buffer bsize s) = 2"
proof -
  have "fst (socketReceive example_config socketID buffer bsize s) = unat (2 :: 32 word)"
    by (rule socketReceive_reply [OF assms(1-4) _ _ _ _ _ _ _ _ _ _ _ _ sscanf_USORF_reply(1)])
      (simp_all add: startsWith_def STR_AT_def STR_RESPONSE_OK_def STR_RESPONSE_ERROR_def
        STR_RESPONSE_CME_ERROR_def STR_RESPONSE_CMS_ERROR_def LF_def NUL_def example_config_def
        checkURC_def sscanf_USORF_reply)
  then show ?thesis by simp
qed

lemma no_UUSORF_example:
  "\<not> occurs ''+UUSORF:'' (map snd (queued t [''+USORF: 0,\"1.2.3.4\",80,2,\"A1B2\"'', ''OK'']))"
  by (simp add: queued_def SODAQ_GSM_TERMINATOR_def startsWith_def CR_def LF_def)

lemma pending_5_example:
  "peek (socketPendingBytes (with_pending 0 5 (initial_modem 7 q))) 0 = 5"
  by (simp add: with_pending_def peek_poke)

subsection \<open>The cells that the response matcher writes\<close>

lemma memcpy_bounds:
  "d + n \<le> length (cells dst) \<Longrightarrow> \<not> stray dst \<Longrightarrow>
     \<not> stray (memcpy dst (int d) src f n) \<and> length (cells (memcpy dst (int d) src f n)) = length (cells dst)"
proof (induction n arbitrary: dst d f)
  case 0
  then show ?case by simp
next
  case (Suc n)
  have i: "in_cells dst (int d)" using Suc.prems by (simp add: in_cells_def)
  have "Suc d + n \<le> length (cells (poke dst (int d) (peek src f)))" "\<not> stray (poke dst (int d) (peek src f))"
    using Suc.prems i by (simp_all add: stray_poke)
  from Suc.IH [OF this, of "f + 1"] show ?case by (simp add: add.commute)
qed

lemma append_line_bounds:
  assumes cap: "length (cells ob) = m" "0 < m" "m \<le> 2 ^ 31" and n: "n < m" and ns: "\<not> stray ob"
    and c: "0 \<le> count - (if hp then as_int (length pre) else 0)"
      "count - (if hp then as_int (length pre) else 0) < 2 ^ 31"
  shows "\<not> stray (fst (append_line m hp pre ib count ob n)) \<and>
         length (cells (fst (append_line m hp pre ib count ob n))) = m \<and>
         snd (append_line m hp pre ib count ob n) < m"
proof -
  define ob1 where "ob1 = (if n > 0 \<and> n < m - 1 then poke ob (int n) LF else ob)"
  define n1 where "n1 = (if n > 0 \<and> n < m - 1 then n + 1 else n)"
  define c1 where "c1 = count - (if hp then as_int (length pre) else 0)"
  define c2 where "c2 = (if n1 + nat c1 > m - 1 then m - 1 - n1 else nat c1)"
  have m1: "size_sub m 1 = m - 1" using cap by (simp add: size_sub_le)
  have an: "as_int n = int n" using n cap by (simp add: as_int_small)
  have sa: "size_add n 1 = n + 1" using n cap by (simp add: size_add_def)
  have st1: "(if n > 0 \<and> n < size_sub m 1 then (poke ob (as_int n) LF, size_add n 1) else (ob, n)) = (ob1, n1)"
    using m1 an sa by (simp add: ob1_def n1_def)
  have b1: "\<not> stray ob1" "length (cells ob1) = m" "n1 < m"
    using cap n ns by (auto simp: ob1_def n1_def stray_poke in_cells_def)
  have an1: "as_int n1 = int n1" using b1 cap by (simp add: as_int_small)
  have c1: "0 \<le> c1" "c1 < 2 ^ 31" using c by (simp_all add: c1_def)
  have ts: "to_size c1 = nat c1" using c1 by (simp add: to_size_def)
  have "n1 + nat c1 < 2 ^ 32" using b1 cap c1 by simp
  then have sa1: "size_add n1 (nat c1) = n1 + nat c1" by (simp add: size_add_def)
  show ?thesis
  proof (cases "n1 < m - 1")
    case False
    then show ?thesis unfolding append_line_def st1 using b1 m1 by simp
  next
    case True
    have ss: "size_sub (m - 1) n1 = m - 1 - n1" using True cap by (simp add: size_sub_le)
    have "as_int (m - 1 - n1) = int (m - 1 - n1)" using cap by (simp add: as_int_small)
    then have tc: "to_size (if size_add n1 (to_size c1) > size_sub m 1
                            then as_int (size_sub (size_sub m 1) n1) else c1) = c2"
    proof -
      have "to_size (int (m - 1 - n1)) = m - 1 - n1" using cap by (simp add: to_size_def)
      then show ?thesis using c1 ts sa1 m1 ss \<open>as_int (m - 1 - n1) = int (m - 1 - n1)\<close>
        by (simp add: c2_def)
    qed
    have le: "n1 + c2 \<le> m - 1" using True by (simp add: c2_def)
    then have "n1 + c2 < 2 ^ 32" using cap by simp
    then have sa2: "size_add n1 c2 = n1 + c2" by (simp add: size_add_def)
    have a2: "as_int (n1 + c2) = int (n1 + c2)" using le cap by (simp add: as_int_small)
    let ?ob2 = "memcpy ob1 (int n1) ib (if hp then as_int (length pre) else 0) c2"
    have "n1 + c2 \<le> length (cells ob1)" using le b1 by simp
    from memcpy_bounds [OF this b1(1)]
    have b2: "\<not> stray ?ob2" "length (cells ?ob2) = m" using b1 by simp_all
    have "in_cells ?ob2 (int (n1 + c2))" using le b2 cap by (simp add: in_cells_def)
    then have b3: "\<not> stray (poke ?ob2 (int (n1 + c2)) NUL)" "length (cells (poke ?ob2 (int (n1 + c2)) NUL)) = m"
      using b2 by (simp_all add: stray_poke)
    have "append_line m hp pre ib count ob n = (poke ?ob2 (int (n1 + c2)) NUL, n1 + c2)"
      unfolding append_line_def st1 Let_def c1_def [symmetric] using True m1 tc sa2 a2 an1
      by simp
    then show ?thesis using b3 le cap by simp
  qed
qed


lemma readResponse_loop_buffer:
  assumes "readResponse_loop cfg m prefix timeout from_ms st = (r, ob', s')" "J (fst st) (fst (snd st))"
    and "\<And>ob n s x ob1 n1 s1. J ob n \<Longrightarrow>
      readResponse_body cfg m prefix (ob, n, s) = (x, ob1, n1, s1) \<Longrightarrow> J ob1 n1"
  shows "\<exists>n'. J ob' n'"
  using assms
proof (induction cfg m prefix timeout from_ms st rule: readResponse_loop.induct)
  case (1 cfg m prefix timeout from_ms st)
  obtain ob n s where st: "st = (ob, n, s)" by (cases st)
  show ?case
  proof (cases "is_timedout from_ms timeout s")
    case True
    with "1.prems" st show ?thesis by (auto simp: readResponse_loop.simps)
  next
    case False
    obtain x ob1 n1 s1 where b: "readResponse_body cfg m prefix (ob, n, s) = (x, ob1, n1, s1)"
      by (cases "readResponse_body cfg m prefix (ob, n, s)")
    have j1: "J ob1 n1" using "1.prems"(2) st by (intro "1.prems"(3) [OF _ b]) simp
    show ?thesis
    proof (cases x)
      case (Some a)
      with False b "1.prems" st have "ob' = ob1" by (simp add: readResponse_loop.simps)
      with j1 show ?thesis by blast
    next
      case None
      with False b "1.prems" st
      have "readResponse_loop cfg m prefix timeout from_ms (ob1, n1, s1) = (r, ob', s')"
        by (simp add: readResponse_loop.simps)
      from "1.IH" [OF _ _ _ this] False b None st j1 "1.prems"(3) show ?thesis by simp
    qed
  qed
qed

lemma readResponse_line_buffer:
  assumes "readResponse_line cfg m prefix count (Some b, n, s) = (x, ob1, n1, s1)"
  shows "(ob1 = Some b \<and> n1 = n) \<or>
         (0 < count \<and>
          ob1 = Some (fst (append_line m
                  (prefix \<noteq> None \<and> the prefix \<noteq> [] \<and> 0 < m \<and> startsWith (the prefix) (c_str (inputBuffer s)))
                  (case prefix of None \<Rightarrow> [] | Some p \<Rightarrow> p) (inputBuffer s) count b n)) \<and>
          n1 = snd (append_line m
                  (prefix \<noteq> None \<and> the prefix \<noteq> [] \<and> 0 < m \<and> startsWith (the prefix) (c_str (inputBuffer s)))
                  (case prefix of None \<Rightarrow> [] | Some p \<Rightarrow> p) (inputBuffer s) count b n))"
proof (cases "count \<le> 0 \<or> startsWith STR_AT (c_str (inputBuffer s)) \<or>
    startsWith STR_RESPONSE_OK (c_str (inputBuffer s)) \<or>
    startsWith STR_RESPONSE_ERROR (c_str (inputBuffer s)) \<or>
    startsWith STR_RESPONSE_CME_ERROR (c_str (inputBuffer s)) \<or>
    startsWith STR_RESPONSE_CMS_ERROR (c_str (inputBuffer s))")
  case True
  with assms show ?thesis by (auto simp: readResponse_line_def Let_def split: if_splits)
next
  case False
  let ?hp = "prefix \<noteq> None \<and> the prefix \<noteq> [] \<and> 0 < m \<and> startsWith (the prefix) (c_str (inputBuffer s))"
  obtain a k where ap: "append_line m ?hp (case prefix of None \<Rightarrow> [] | Some p \<Rightarrow> p) (inputBuffer s) count b n = (a, k)"
    by (metis surj_pair)
  from False have pos: "0 < count" by simp
  from assms False ap show ?thesis
    unfolding readResponse_line_def Let_def
    by (simp split: if_splits)
qed

lemma startsWith_length: "startsWith p l \<Longrightarrow> length p \<le> length l"
  by (metis startsWith_def length_take min.cobounded1)

lemma readResponse_body_bounds:
  assumes cap: "0 < m" "m \<le> 2 ^ 31"
    and j: "length (cells b) = m \<and> \<not> stray b \<and> n < m"
    and r: "readResponse_body cfg m prefix (Some b, n, s) = (x, ob1, n1, s1)"
  shows "\<exists>b1. ob1 = Some b1 \<and> length (cells b1) = m \<and> \<not> stray b1 \<and> n1 < m"
proof -
  obtain len ib s0 where l: "readLn (inputBuffer s) inputBufferSize 250 s = (len, ib, s0)"
    by (metis prod_cases3)
  with r have rl: "readResponse_line cfg m prefix (as_int len) (Some b, n, s0\<lparr>inputBuffer := ib\<rparr>)
      = (x, ob1, n1, s1)"
    by (simp add: readResponse_body_def)
  let ?hp = "prefix \<noteq> None \<and> the prefix \<noteq> [] \<and> 0 < m \<and> startsWith (the prefix) (c_str ib)"
  from readResponse_line_buffer [OF rl]
  have "(ob1 = Some b \<and> n1 = n) \<or>
        (0 < as_int len \<and>
         ob1 = Some (fst (append_line m ?hp (case prefix of None \<Rightarrow> [] | Some p \<Rightarrow> p) ib (as_int len) b n)) \<and>
         n1 = snd (append_line m ?hp (case prefix of None \<Rightarrow> [] | Some p \<Rightarrow> p) ib (as_int len) b n))"
    by simp
  then show ?thesis
  proof
    assume "ob1 = Some b \<and> n1 = n"
    with j show ?thesis by simp
  next
    assume a: "0 < as_int len \<and>
         ob1 = Some (fst (append_line m ?hp (case prefix of None \<Rightarrow> [] | Some p \<Rightarrow> p) ib (as_int len) b n)) \<and>
         n1 = snd (append_line m ?hp (case prefix of None \<Rightarrow> [] | Some p \<Rightarrow> p) ib (as_int len) b n)"
    define hp where "hp = ?hp"
    have hp: "hp \<longrightarrow> prefix \<noteq> None \<and> startsWith (the prefix) (c_str ib)" by (simp add: hp_def)
    have o1: "ob1 = Some (fst (append_line m hp (case prefix of None \<Rightarrow> [] | Some p \<Rightarrow> p) ib (as_int len) b n))"
      and n1: "n1 = snd (append_line m hp (case prefix of None \<Rightarrow> [] | Some p \<Rightarrow> p) ib (as_int len) b n)"
      using a by (simp_all add: hp_def)
    from a have pos: "0 < as_int len" by simp
    from readLn_count [OF l pos] have len: "len \<le> 1023" "length (c_str ib) \<le> len" by simp_all
    have al: "as_int len = int len" using len by (simp add: as_int_small)
    let ?p = "case prefix of None \<Rightarrow> [] | Some p \<Rightarrow> p"
    have c: "0 \<le> as_int len - (if hp then as_int (length ?p) else 0)"
      "as_int len - (if hp then as_int (length ?p) else 0) < 2 ^ 31"
    proof -
      have "length ?p \<le> len" if hp
        using that hp len startsWith_length [of "the prefix" "c_str ib"] by (cases prefix) auto
      then have "as_int (length ?p) = int (length ?p) \<and> length ?p \<le> len" if hp
        using that len by (simp add: as_int_small)
      then show "0 \<le> as_int len - (if hp then as_int (length ?p) else 0)"
        "as_int len - (if hp then as_int (length ?p) else 0) < 2 ^ 31"
        using al len by auto
    qed
    from j have j': "length (cells b) = m" "n < m" "\<not> stray b" by simp_all
    from append_line_bounds [OF j'(1) cap j'(2,3) c, of ib] o1 n1
    show ?thesis by simp
  qed
qed

text \<open>
  With a capacity of at least 1, which is the number of cells of the buffer,
  \<open>readResponse\<close> writes no cell outside the buffer, whatever the modem sends.
\<close>

lemma readResponse_in_bounds:
  assumes r: "readResponse cfg (Some ob) m prefix timeout s = (r, ob', s')"
    and cap: "length (cells ob) = m" "0 < m" "m \<le> 2 ^ 31" and ns: "\<not> stray ob"
  shows "\<exists>b. ob' = Some b \<and> length (cells b) = m \<and> \<not> stray b"
proof -
  let ?J = "\<lambda>ob n. \<exists>b. ob = Some b \<and> length (cells b) = m \<and> \<not> stray b \<and> n < m"
  have "in_cells ob 0" using cap by (simp add: in_cells_def)
  then have j0: "?J (Some (poke ob 0 NUL)) 0" using cap ns by (simp add: stray_poke)
  have "\<exists>n'. ?J ob' n'"
  proof (rule readResponse_loop_buffer [where J = ?J])
    show "readResponse_loop cfg m prefix timeout (now s) (Some (poke ob 0 NUL), 0, s) = (r, ob', s')"
      using r by (simp add: readResponse_def)
    show "?J (fst (Some (poke ob 0 NUL), 0 :: nat, s)) (fst (snd (Some (poke ob 0 NUL), 0 :: nat, s)))"
      using j0 by simp
  next
    fix ob n s x ob1 n1 s1
    assume "?J ob n" and b: "readResponse_body cfg m prefix (ob, n, s) = (x, ob1, n1, s1)"
    then obtain b0 where "ob = Some b0" "length (cells b0) = m \<and> \<not> stray b0 \<and> n < m" by blast
    with readResponse_body_bounds [OF cap(2,3) this(2), of cfg prefix s x ob1 n1 s1] b
    show "?J ob1 n1" by simp
  qed
  then show ?thesis by blast
qed

subsection \<open>The terminator of the response payload\<close>

lemma plain_line_examples:
  "plain_line example_config s ''abcdef''" "plain_line example_config s ''x''"
  by (simp_all add: plain_line_def startsWith_def STR_AT_def STR_RESPONSE_OK_def STR_RESPONSE_ERROR_def
        STR_RESPONSE_CME_ERROR_def STR_RESPONSE_CMS_ERROR_def LF_def NUL_def checkURC_def)

text \<open>
  Claim C8. The payload is not always terminated within the capacity. When a line of
  payload has left \<open>outSize\<close> two below the capacity \<open>m\<close>, the next line of payload makes
  \<open>readResponse\<close> put the line break where the terminator was, and since \<open>outSize\<close> is now
  \<open>m - 1\<close> nothing more is written: the last cell keeps what the caller's buffer held.
  With a buffer whose last cell is not NUL the call returns \<open>GSMResponseOK\<close> and no cell of
  the buffer holds NUL.
\<close>

theorem readResponse_unterminated:
  assumes "rx s = queued t [l1, l2, ''OK'']" "t \<le> now s" "input_ready s"
    and "plain_line cfg s l1" "plain_line cfg s l2"
    and "length (cells ob) = m" "3 \<le> m" "m \<le> 2 ^ 31" "length l1 = m - 2"
    and "last (cells ob) \<noteq> NUL"
  shows "fst (readResponse cfg (Some ob) m None timeout s) = GSMResponseOK \<and>
         fst (snd (readResponse cfg (Some ob) m None timeout s)) =
           Some (ob\<lparr>cells := l1 @ [LF, last (cells ob)]\<rparr>) \<and>
         NUL \<notin> set (cells (the (fst (snd (readResponse cfg (Some ob) m None timeout s)))))"
proof -
  have "NUL \<notin> set l1" using assms(4) by (simp add: plain_line_def)
  then show ?thesis
    using readResponse_two_lines [OF assms(1-9), of timeout] assms(10)
    by (simp add: LF_def NUL_def)
qed

theorem readResponse_unterminated_witness:
  "plain_line example_config (initial_modem 7 (queued 0 [''abcdef'', ''x'', ''OK''])) ''abcdef'' \<and>
   plain_line example_config (initial_modem 7 (queued 0 [''abcdef'', ''x'', ''OK''])) ''x'' \<and>
   fst (readResponse example_config (Some (filled_array 8 CR)) 8 None 1000
          (initial_modem 7 (queued 0 [''abcdef'', ''x'', ''OK'']))) = GSMResponseOK \<and>
   cells (the (fst (snd (readResponse example_config (Some (filled_array 8 CR)) 8 None 1000
          (initial_modem 7 (queued 0 [''abcdef'', ''x'', ''OK''])))))) = ''abcdef'' @ [LF, CR]"
  using readResponse_unterminated [of "initial_modem 7 (queued 0 [''abcdef'', ''x'', ''OK''])" 0
      "''abcdef''" "''x''" example_config "filled_array 8 CR" 8 1000]
    plain_line_examples
  by (simp add: filled_array_def CR_def NUL_def)

text \<open>With a capacity of 0 the first statement of \<open>readResponse\<close> writes cell 0 all the same.\<close>

lemma readResponse_capacity_0:
  "length (cells ob) = 0 \<Longrightarrow>
     readResponse cfg (Some ob) 0 prefix timeout s =
       readResponse_loop cfg 0 prefix timeout (now s)
         (Some (ob\<lparr>outside := (outside ob)(0 := NUL), stray := True\<rparr>), 0, s)"
  by (simp add: readResponse_def poke_def in_cells_def)

subsection \<open>The lines that the notification dispatcher handles\<close>

lemma number_field_scan_int: "number_field inp = map_option snd (scan_int (dropWhile isspace inp))"
  by (simp add: number_field_def scan_int_def Let_def)

lemma scan_tag_match:
  "startsWith tag inp \<Longrightarrow> scan (map Lit tag @ ds) inp vs = scan ds (drop (length tag) inp) vs"
proof (induction tag arbitrary: inp)
  case Nil
  then show ?case by simp
next
  case (Cons c tag)
  then show ?case by (cases inp) (auto simp: startsWith_def)
qed

lemma scan_tag_mismatch:
  "\<not> startsWith tag inp \<Longrightarrow> snd (scan (map Lit tag @ ds) inp vs) = vs"
proof (induction tag arbitrary: inp)
  case Nil
  then show ?case by (simp add: startsWith_def)
next
  case (Cons c tag)
  then show ?case by (cases inp) (auto simp: startsWith_def)
qed

lemma sscanf_count: "0 < n \<Longrightarrow> (fst (sscanf str fmt) = int n) = (length (snd (scan (parse_format fmt) str [])) = n)"
  by (auto simp: sscanf_def split: prod.splits)

lemma scan_int_Nil: "scan_int [] = None"
  by (simp add: scan_int_def)

lemma scan_Conv_d:
  "scan (Conv_d st # ds) inp vs =
     (case scan_int (dropWhile isspace inp) of
        None \<Rightarrow> (if dropWhile isspace inp = [] then InputFailure else MatchingFailure, vs)
      | Some (v, r) \<Rightarrow> scan ds r (if st then vs @ [IntV v] else vs))"
proof (cases "dropWhile isspace inp = []")
  case True
  then have "scan_int (dropWhile isspace inp) = None" by (simp only: scan_int_Nil)
  with True show ?thesis by (simp del: dropWhile_eq_Nil_conv)
next
  case False
  then show ?thesis by (simp del: dropWhile_eq_Nil_conv split: option.splits)
qed

lemma scan_White_Conv_d:
  "scan (White # Conv_d st # ds) inp vs = scan (Conv_d st # ds) inp vs"
  unfolding scan.simps(2) scan_Conv_d by (simp only: dropWhile_idem)

lemma scan_one_number:
  "length (snd (scan [White, Conv_d True] r [])) = Suc 0 \<longleftrightarrow> number_field r \<noteq> None"
  unfolding scan_White_Conv_d scan_Conv_d number_field_scan_int
  by (cases "scan_int (dropWhile isspace r)") auto

lemma scan_two_numbers:
  "length (snd (scan [White, Conv_d True, Lit (CHR '',''), Conv_d True] r [])) = 2 \<longleftrightarrow>
     (case number_field r of None \<Rightarrow> False
      | Some r2 \<Rightarrow> r2 \<noteq> [] \<and> hd r2 = CHR '','' \<and> number_field (tl r2) \<noteq> None)"
proof (cases "scan_int (dropWhile isspace r)")
  case None
  then show ?thesis unfolding scan_White_Conv_d scan_Conv_d number_field_scan_int by simp
next
  case (Some a)
  obtain v r2 where a: "a = (v, r2)" by (cases a)
  show ?thesis
  proof (cases r2)
    case Nil
    then show ?thesis using Some a
      unfolding scan_White_Conv_d scan_Conv_d number_field_scan_int by simp
  next
    case (Cons x r3)
    show ?thesis
    proof (cases "scan_int (dropWhile isspace r3)")
      case None
      then show ?thesis using \<open>scan_int (dropWhile isspace r) = Some a\<close> a Cons
        unfolding scan_White_Conv_d scan_Conv_d number_field_scan_int scan.simps(3) by simp
    next
      case (Some b)
      then show ?thesis using \<open>scan_int (dropWhile isspace r) = Some a\<close> a Cons
        unfolding scan_White_Conv_d scan_Conv_d number_field_scan_int scan.simps(3)
        by (cases b) simp
    qed
  qed
qed

lemma sscanf_two_numbers:
  assumes "parse_format fmt = map Lit tag @ [White, Conv_d True, Lit (CHR '',''), Conv_d True]"
  shows "(fst (sscanf line fmt) = 2) = two_numbers tag line"
proof (cases "startsWith tag line")
  case True
  then show ?thesis
    using sscanf_count [of 2 line fmt] scan_two_numbers [of "drop (length tag) line"]
    by (simp add: assms scan_tag_match two_numbers_def)
next
  case False
  then show ?thesis
    using sscanf_count [of 2 line fmt] scan_tag_mismatch [OF False, of _ "[]"]
    by (simp add: assms two_numbers_def)
qed

lemma sscanf_one_number:
  assumes "parse_format fmt = map Lit tag @ [White, Conv_d True]"
  shows "(fst (sscanf line fmt) = 1) = one_number tag line"
proof (cases "startsWith tag line")
  case True
  then show ?thesis
    using sscanf_count [of 1 line fmt] scan_one_number [of "drop (length tag) line"]
    by (simp add: assms scan_tag_match one_number_def)
next
  case False
  then show ?thesis
    using sscanf_count [of 1 line fmt] scan_tag_mismatch [OF False, of _ "[]"]
    by (simp add: assms one_number_def)
qed

lemmas sscanf_shapes =
  sscanf_two_numbers [OF parse_format_UFOTAS] sscanf_two_numbers [OF parse_format_UUSORF]
  sscanf_one_number [OF parse_format_UUSOCL] sscanf_one_number [OF parse_format_CSCON]

lemma startsWith_first: "startsWith (c # tag) line \<Longrightarrow> startsWith [c] line"
  by (cases line) (simp_all add: startsWith_def)

lemma recognized_plus: "recognized_notification line \<Longrightarrow> startsWith ''+'' line"
  unfolding recognized_notification_def one_number_def two_numbers_def
  by (blast intro: startsWith_first)

lemma startsWith_plus: "startsWith ''+'' line = ((case line of [] \<Rightarrow> NUL | c # _ \<Rightarrow> c) = CHR ''+'')"
  by (cases line) (simp_all add: startsWith_def NUL_def)

lemma recognized_examples:
  "\<not> recognized_notification ''+CSQ: 5,99''" "\<not> recognized_notification ''+UUSORF: 0''"
  "\<not> recognized_notification ''RING''"
  "recognized_notification ''+UUSOCL: 3''" "recognized_notification ''+UFOTAS:11,-2 done''"
  by code_simp+

text \<open>
  Claim C9. \<open>checkURC\<close> answers true exactly for the lines of one of the four shapes, which
  are the lines that begin with \<^verbatim>\<open>+\<close> and on which one of the four \<^verbatim>\<open>sscanf\<close> patterns
  stores all its numbers. On every other line, and so on every line that does not begin
  with \<^verbatim>\<open>+\<close>, it answers false and returns the state it was given.
\<close>

theorem checkURC_recognized_shapes:
  "fst (checkURC cfg line s) = recognized_notification line \<and>
   (\<not> recognized_notification line \<longrightarrow> checkURC cfg line s = (False, s)) \<and>
   (\<not> startsWith ''+'' line \<longrightarrow> checkURC cfg line s = (False, s)) \<and>
   (recognized_notification line \<longleftrightarrow>
      startsWith ''+'' line \<and>
      (fst (sscanf line ''+UFOTAS: %d,%d'') = 2 \<or> fst (sscanf line ''+UUSORF: %d,%d'') = 2 \<or>
       fst (sscanf line ''+UUSOCL: %d'') = 1 \<or> fst (sscanf line ''+CSCON: %d'') = 1))"
proof -
  have a: "recognized_notification line \<longleftrightarrow>
      startsWith ''+'' line \<and>
      (fst (sscanf line ''+UFOTAS: %d,%d'') = 2 \<or> fst (sscanf line ''+UUSORF: %d,%d'') = 2 \<or>
       fst (sscanf line ''+UUSOCL: %d'') = 1 \<or> fst (sscanf line ''+CSCON: %d'') = 1)"
    using recognized_plus [of line] by (auto simp: sscanf_shapes recognized_notification_def)
  have b: "fst (checkURC cfg line s) = recognized_notification line"
    unfolding a startsWith_plus by (simp add: checkURC_def Let_def)
  have c: "checkURC cfg line s = (False, s)" if "\<not> fst (checkURC cfg line s)"
    using that by (auto simp: checkURC_def Let_def split: if_splits)
  have d: "\<not> fst (checkURC cfg line s)" if "\<not> startsWith ''+'' line"
    using that by (simp add: startsWith_plus checkURC_def)
  show ?thesis using a b c d by blast
qed

theorem checkURC_recognized_shapes_witness:
  "\<not> recognized_notification ''+CSQ: 5,99'' \<and>
   checkURC example_config ''+CSQ: 5,99'' (initial_modem 7 []) = (False, initial_modem 7 []) \<and>
   \<not> startsWith ''+'' ''RING'' \<and>
   checkURC example_config ''RING'' (initial_modem 7 []) = (False, initial_modem 7 []) \<and>
   fst (checkURC example_config ''+UUSOCL: 3'' (initial_modem 7 []))"
  using checkURC_recognized_shapes [of example_config "''+CSQ: 5,99''" "initial_modem 7 []"]
    checkURC_recognized_shapes [of example_config "''RING''" "initial_modem 7 []"]
    checkURC_recognized_shapes [of example_config "''+UUSOCL: 3''" "initial_modem 7 []"]
    recognized_examples
  by (simp add: startsWith_def)

subsection \<open>The bytes and the lines that a call receives\<close>

text \<open>
  The pending bytes change only when a line that starts with \<^verbatim>\<open>+UUSORF:\<close> is framed, and
  such a line is part of what the call takes from the receive queue.
\<close>

lemma received_append: "map snd (rx s) = c @ map snd (rx s') \<Longrightarrow> received s s' = c"
proof -
  assume a: "map snd (rx s) = c @ map snd (rx s')"
  then have "length (rx s) = length c + length (rx s')"
    by (metis length_append length_map)
  with a show ?thesis by (simp add: received_def)
qed

lemma occurs_prefix: "occurs pat xs \<Longrightarrow> occurs pat (xs @ ys)"
proof (induction xs)
  case Nil
  then show ?case by (cases ys) (simp_all add: startsWith_def)
next
  case (Cons x xs)
  then show ?case using startsWith_prefix [of pat "x # xs" ys] by auto
qed

lemma readResponse_body_received:
  assumes inv: "input_ready s"
    and b: "readResponse_body cfg m prefix (ob, n, s) = (x, ob1, n1, s1)"
  shows "input_ready s1 \<and>
         (\<exists>c. map snd (rx s) = c @ map snd (rx s1) \<and>
              (\<not> occurs ''+UUSORF:'' c \<longrightarrow> socketPendingBytes s1 = socketPendingBytes s))"
proof -
  obtain len ib s0 where l: "readLn (inputBuffer s) inputBufferSize 250 s = (len, ib, s0)"
    by (metis prod_cases3)
  let ?s0 = "s0\<lparr>inputBuffer := ib\<rparr>"
  from b l have rl: "readResponse_line cfg m prefix (as_int len) (ob, n, ?s0) = (x, ob1, n1, s1)"
    by (simp add: readResponse_body_def)
  note st = readResponse_line_state [OF rl]
  have "0 < inputBufferSize" "inputBufferSize < 2 ^ 32" by (simp_all add: inputBufferSize_val)
  then obtain bs b1 where bs:
    "length bs \<le> inputBufferSize - 1" "LF \<notin> set bs"
    "map snd (rx s) = bs @ map snd (rx s0) \<or> map snd (rx s) = bs @ LF # map snd (rx s0)"
    "b1 = (if length bs < inputBufferSize - 1 then poke (pokes (inputBuffer s) 0 bs) (int (length bs)) NUL
           else pokes (inputBuffer s) 0 bs)"
    "len = (if peek b1 (as_int (size_sub (length bs) (Suc 0))) = CR
                  then size_sub (length bs) (Suc 0) else length bs)"
    "ib = poke b1 (as_int len) NUL"
    by (rule readLn_shape [OF l])
  have ready: "input_ready ?s0" using inv bs(4,6) by (simp add: input_ready_def)
  have rx1: "rx s1 = rx s0" using st by auto
  have ready1: "input_ready s1" using st ready by auto
  from inv have wf: "length (cells (inputBuffer s)) = inputBufferSize" by (simp add: input_ready_def)
  show ?thesis
  proof (cases "0 < as_int len")
    case False
    with st have "s1 = ?s0" by auto
    then have "socketPendingBytes s1 = socketPendingBytes s" using readLn_tables(2) [OF l] by simp
    moreover from bs(3) obtain c where "map snd (rx s) = c @ map snd (rx s0)"
      by (metis append.assoc append_Cons append_Nil)
    ultimately show ?thesis using ready1 rx1 by auto
  next
    case True
    from readLn_prefix [OF l wf True] obtain cs where cs:
      "map snd (rx s) = cs @ map snd (rx s0) \<or> map snd (rx s) = cs @ LF # map snd (rx s0)"
      "c_str ib = takeWhile (\<lambda>c. c \<noteq> NUL) (take len cs)"
      by blast
    from cs(1) obtain c where c: "map snd (rx s) = c @ map snd (rx s0)" "c = cs \<or> c = cs @ [LF]"
      by (metis append.assoc append_Cons append_Nil)
    have "socketPendingBytes s1 = socketPendingBytes s" if no: "\<not> occurs ''+UUSORF:'' c"
    proof -
      have same: "socketPendingBytes (snd (checkURC cfg (c_str ib) ?s0)) = socketPendingBytes ?s0"
      proof (rule ccontr)
        assume "\<not> ?thesis"
        then have sw: "startsWith ''+UUSORF:'' (c_str ib)" by (rule checkURC_pending_tag)
        with cs(2) have "startsWith ''+UUSORF:'' cs"
          by (metis startsWith_take startsWith_takeWhile)
        then have "occurs ''+UUSORF:'' c"
          using c(2) by (metis startsWith_prefix startsWith_occurs)
        with no show False by simp
      qed
      from st same readLn_tables(2) [OF l] show ?thesis by auto
    qed
    with c(1) ready1 rx1 show ?thesis by auto
  qed
qed

lemma readResponse_loop_received:
  assumes "readResponse_loop cfg m prefix timeout from_ms st = (r, ob', s')" "input_ready (snd (snd st))"
  shows "\<exists>c. map snd (rx (snd (snd st))) = c @ map snd (rx s') \<and>
             (\<not> occurs ''+UUSORF:'' c \<longrightarrow> socketPendingBytes s' = socketPendingBytes (snd (snd st)))"
  using assms
proof (induction cfg m prefix timeout from_ms st rule: readResponse_loop.induct)
  case (1 cfg m prefix timeout from_ms st)
  obtain ob n s where st: "st = (ob, n, s)" by (cases st)
  show ?case
  proof (cases "is_timedout from_ms timeout s")
    case True
    with "1.prems" st have "s' = s" by (simp add: readResponse_loop.simps)
    with st show ?thesis by simp
  next
    case False
    obtain x ob1 n1 s1 where b: "readResponse_body cfg m prefix (ob, n, s) = (x, ob1, n1, s1)"
      by (cases "readResponse_body cfg m prefix (ob, n, s)")
    from "1.prems"(2) st have "input_ready s" by simp
    from readResponse_body_received [OF this b] obtain c1 where c1:
      "input_ready s1" "map snd (rx s) = c1 @ map snd (rx s1)"
      "\<not> occurs ''+UUSORF:'' c1 \<longrightarrow> socketPendingBytes s1 = socketPendingBytes s"
      by blast
    show ?thesis
    proof (cases x)
      case (Some a)
      with False b "1.prems" st have "s' = s1" by (simp add: readResponse_loop.simps)
      with c1 st show ?thesis by auto
    next
      case None
      with False b "1.prems" st
      have "readResponse_loop cfg m prefix timeout from_ms (ob1, n1, s1) = (r, ob', s')"
        by (simp add: readResponse_loop.simps)
      from "1.IH" [OF _ _ _ this] False b None st c1(1)
      obtain c2 where c2: "map snd (rx s1) = c2 @ map snd (rx s')"
        "\<not> occurs ''+UUSORF:'' c2 \<longrightarrow> socketPendingBytes s' = socketPendingBytes s1"
        by auto
      have "map snd (rx s) = (c1 @ c2) @ map snd (rx s')" using c1(2) c2(1) by simp
      moreover have "socketPendingBytes s' = socketPendingBytes s" if "\<not> occurs ''+UUSORF:'' (c1 @ c2)"
        using that c1(3) c2(2) occurs_prefix [of "''+UUSORF:''" c1 c2] occurs_suffix [of "''+UUSORF:''" c2 c1]
        by auto
      ultimately show ?thesis using st by (metis snd_conv)
    qed
  qed
qed

lemma readResponse_loop_unreceived:
  assumes "readResponse_loop cfg m prefix timeout from_ms (ob, n, s) = (r, ob', s')" "input_ready s"
    and "\<not> occurs ''+UUSORF:'' (received s s')"
  shows "socketPendingBytes s' = socketPendingBytes s"
  using readResponse_loop_received [OF assms(1)] assms(2,3) received_append by fastforce

lemma readResponse_unreceived:
  assumes "readResponse cfg ob m prefix timeout s = (r, ob', s')" "input_ready s"
    and "\<not> occurs ''+UUSORF:'' (received s s')"
  shows "socketPendingBytes s' = socketPendingBytes s"
  using readResponse_loop_unreceived [of cfg m prefix timeout "now s" _ 0 s r ob' s'] assms
  by (simp add: readResponse_def)

lemma two_numbers_UUSORF:
  assumes "two_numbers ''+UUSORF:'' l"
  shows "(case l of [] \<Rightarrow> NUL | c # _ \<Rightarrow> c) = CHR ''+''" "\<not> two_numbers ''+UFOTAS:'' l"
proof -
  from assms have sw: "startsWith ''+UUSORF:'' l" by (simp add: two_numbers_def)
  then show "(case l of [] \<Rightarrow> NUL | c # _ \<Rightarrow> c) = CHR ''+''"
    by (cases l) (simp_all add: startsWith_def)
  show "\<not> two_numbers ''+UFOTAS:'' l"
    using sw by (auto simp: two_numbers_def startsWith_def)
qed

lemma checkURC_pending_exact:
  "socketPendingBytes (snd (checkURC cfg line s)) =
     (if two_numbers ''+UUSORF:'' line \<and> 0 \<le> arrival_id line \<and> arrival_id line < int (SOCKET_COUNT cfg)
      then poke (socketPendingBytes s) (arrival_id line)
             (peek (socketPendingBytes s) (arrival_id line) + arrival_count line)
      else socketPendingBytes s)"
proof (cases "two_numbers ''+UUSORF:'' line")
  case True
  from two_numbers_UUSORF [OF this] True show ?thesis
    by (simp add: checkURC_def sscanf_shapes Let_def arrival_id_def arrival_count_def)
next
  case False
  then show ?thesis
    by (simp add: checkURC_def sscanf_shapes Let_def)
qed

lemma checkURC_other_session:
  "\<not> data_arrival i l \<Longrightarrow>
     peek (socketPendingBytes (snd (checkURC cfg l s))) i = peek (socketPendingBytes s) i"
  by (auto simp: checkURC_pending_exact data_arrival_def peek_poke)

lemma final_line_shape:
  assumes "final_line l"
  shows "l \<noteq> []" "\<not> startsWith STR_AT l"
proof -
  from assms have h: "l \<noteq> [] \<and> (hd l = CHR ''O'' \<or> hd l = CHR ''E'' \<or> hd l = CHR ''+'')"
    by (auto simp: final_line_def STR_RESPONSE_OK_def STR_RESPONSE_ERROR_def
        STR_RESPONSE_CME_ERROR_def STR_RESPONSE_CMS_ERROR_def dest!: startsWith_hd)
  then show "l \<noteq> []" "\<not> startsWith STR_AT l"
    by (auto simp: STR_AT_def dest!: startsWith_hd)
qed

lemma line_final:
  assumes "c_str (inputBuffer s) = l" "final_line l"
  shows "readResponse_line cfg m prefix (int (length l)) (ob, n, s) =
           (Some (if startsWith STR_RESPONSE_OK l then GSMResponseOK else GSMResponseError), ob, n, s)"
proof (cases "startsWith STR_RESPONSE_OK l")
  case True
  with assms(1) final_line_shape [OF assms(2)] show ?thesis
    by (simp add: readResponse_line_def Let_def)
next
  case False
  with assms(2) have "startsWith STR_RESPONSE_ERROR l \<or> startsWith STR_RESPONSE_CME_ERROR l \<or>
      startsWith STR_RESPONSE_CMS_ERROR l"
    by (simp add: final_line_def)
  with False assms(1) final_line_shape [OF assms(2)] show ?thesis
    by (simp add: readResponse_line_def Let_def)
qed

lemma line_skipped:
  assumes "c_str (inputBuffer s) = l" "\<not> final_line l"
  shows "readResponse_line cfg m None (int (length l)) (None, n, s) =
           (None, None, n, if l = [] \<or> startsWith STR_AT l then s else snd (checkURC cfg l s))"
  using assms by (simp add: readResponse_line_def Let_def final_line_def)

text \<open>
  The loop of \<open>readResponse\<close> on lines that are in the receive queue, for a caller that
  asks for no payload and no prefix.
\<close>

lemma readResponse_loop_lines:
  assumes "rx s = queued t ls" "t \<le> now s" "input_ready s" "\<not> is_timedout from_ms timeout s"
    and "\<forall>l\<in>set ls. whole_line l"
    and "readResponse_loop cfg m None timeout from_ms (None, n, s) = (r, ob', s')"
  shows "(r = GSMResponseOK) =
           (case dropWhile (\<lambda>l. \<not> final_line l) ls of [] \<Rightarrow> False
            | l # _ \<Rightarrow> startsWith STR_RESPONSE_OK l) \<and>
         ((\<forall>l\<in>set (takeWhile (\<lambda>l. \<not> final_line l) ls). \<not> data_arrival i l) \<longrightarrow>
            peek (socketPendingBytes s') i = peek (socketPendingBytes s) i)"
  using assms
proof (induction ls arbitrary: s)
  case Nil
  then have e: "rx s = []" by simp
  from readResponse_loop_ok [of cfg m None timeout from_ms "(None, n, s)" ob' s'] Nil.prems(3,6) e
  have "r \<noteq> GSMResponseOK" by (auto simp: STR_RESPONSE_OK_def)
  moreover from readResponse_loop_received [OF Nil.prems(6)] Nil.prems(3) e
  have "socketPendingBytes s' = socketPendingBytes s" by auto
  ultimately show ?case by simp
next
  case (Cons l ls)
  have w: "LF \<notin> set l" "NUL \<notin> set l" "length l \<le> 1021"
    using Cons.prems(5) by (simp_all add: whole_line_def)
  let ?s3 = "after_line l (queued t ls) s"
  have cs: "c_str (inputBuffer ?s3) = l" using w(2) by simp
  note step = readResponse_loop_line [OF Cons.prems(1,2) w(1,3) Cons.prems(3) [unfolded input_ready_def]
      Cons.prems(4), of cfg m None None n]
  show ?case
  proof (cases "final_line l")
    case True
    from step line_final [OF cs True, of cfg m None None n] Cons.prems(6)
    have "r = (if startsWith STR_RESPONSE_OK l then GSMResponseOK else GSMResponseError)" "s' = ?s3"
      by simp_all
    with True show ?thesis by simp
  next
    case False
    let ?s4 = "if l = [] \<or> startsWith STR_AT l then ?s3 else snd (checkURC cfg l ?s3)"
    from step line_skipped [OF cs False, of cfg m n] Cons.prems(6)
    have loop: "readResponse_loop cfg m None timeout from_ms (None, n, ?s4) = (r, ob', s')"
      by simp
    have s4: "rx ?s4 = queued t ls" "t \<le> now ?s4" "input_ready ?s4" "\<not> is_timedout from_ms timeout ?s4"
      using Cons.prems(2,3,4) w(3) by simp_all
    have "\<forall>l\<in>set ls. whole_line l" using Cons.prems(5) by simp
    note IH = Cons.IH [OF s4 this loop]
    have "peek (socketPendingBytes ?s4) i = peek (socketPendingBytes s) i" if "\<not> data_arrival i l"
      using that checkURC_other_session [of i l cfg ?s3] by simp
    with IH False show ?thesis by simp
  qed
qed

subsection \<open>What the outcome of the response matcher depends on\<close>

lemma timedRead_same_input:
  assumes "now u = now s" "rx u = rx s"
  shows "fst (timedRead timeout u) = fst (timedRead timeout s) \<and>
         now (snd (timedRead timeout u)) = now (snd (timedRead timeout s)) \<and>
         rx (snd (timedRead timeout u)) = rx (snd (timedRead timeout s))"
  using assms by (simp add: timedRead_def split: list.splits prod.splits)

lemma readBytesUntil_loop_same_input:
  "\<forall>u :: modem. now u = now s \<and> rx u = rx s \<longrightarrow>
     fst (readBytesUntil_loop terminator timeout lengthN index buffer u) =
       fst (readBytesUntil_loop terminator timeout lengthN index buffer s) \<and>
     fst (snd (readBytesUntil_loop terminator timeout lengthN index buffer u)) =
       fst (snd (readBytesUntil_loop terminator timeout lengthN index buffer s)) \<and>
     now (snd (snd (readBytesUntil_loop terminator timeout lengthN index buffer u))) =
       now (snd (snd (readBytesUntil_loop terminator timeout lengthN index buffer s))) \<and>
     rx (snd (snd (readBytesUntil_loop terminator timeout lengthN index buffer u))) =
       rx (snd (snd (readBytesUntil_loop terminator timeout lengthN index buffer s)))"
proof (induction terminator timeout lengthN index buffer s rule: readBytesUntil_loop.induct)
  case (1 terminator timeout lengthN index buffer s)
  show ?case
  proof (intro allI impI)
    fix u :: modem assume a: "now u = now s \<and> rx u = rx s"
    show "fst (readBytesUntil_loop terminator timeout lengthN index buffer u) =
       fst (readBytesUntil_loop terminator timeout lengthN index buffer s) \<and>
     fst (snd (readBytesUntil_loop terminator timeout lengthN index buffer u)) =
       fst (snd (readBytesUntil_loop terminator timeout lengthN index buffer s)) \<and>
     now (snd (snd (readBytesUntil_loop terminator timeout lengthN index buffer u))) =
       now (snd (snd (readBytesUntil_loop terminator timeout lengthN index buffer s))) \<and>
     rx (snd (snd (readBytesUntil_loop terminator timeout lengthN index buffer u))) =
       rx (snd (snd (readBytesUntil_loop terminator timeout lengthN index buffer s)))"
    proof (cases "index < lengthN")
      case False
      then show ?thesis using a by (simp add: readBytesUntil_loop.simps)
    next
      case True
      obtain c s1 where ts: "timedRead timeout s = (c, s1)" by (cases "timedRead timeout s")
      obtain d u1 where tu: "timedRead timeout u = (d, u1)" by (cases "timedRead timeout u")
      from timedRead_same_input [of u s timeout] a ts tu
      have e: "d = c" "now u1 = now s1" "rx u1 = rx s1" by simp_all
      show ?thesis
      proof (cases "c < 0 \<or> c = of_char terminator")
        case stop: True
        then show ?thesis using True ts tu e
          by (subst (1 2 3 4 5 6 7 8) readBytesUntil_loop.simps) auto
      next
        case go: False
        from "1.IH" [OF True ts [symmetric] go] e
        have "fst (readBytesUntil_loop terminator timeout lengthN (Suc index) (poke buffer (int index) (char_of c)) u1) =
          fst (readBytesUntil_loop terminator timeout lengthN (Suc index) (poke buffer (int index) (char_of c)) s1) \<and>
          fst (snd (readBytesUntil_loop terminator timeout lengthN (Suc index) (poke buffer (int index) (char_of c)) u1)) =
          fst (snd (readBytesUntil_loop terminator timeout lengthN (Suc index) (poke buffer (int index) (char_of c)) s1)) \<and>
          now (snd (snd (readBytesUntil_loop terminator timeout lengthN (Suc index) (poke buffer (int index) (char_of c)) u1))) =
          now (snd (snd (readBytesUntil_loop terminator timeout lengthN (Suc index) (poke buffer (int index) (char_of c)) s1))) \<and>
          rx (snd (snd (readBytesUntil_loop terminator timeout lengthN (Suc index) (poke buffer (int index) (char_of c)) u1))) =
          rx (snd (snd (readBytesUntil_loop terminator timeout lengthN (Suc index) (poke buffer (int index) (char_of c)) s1)))"
          by blast
        then show ?thesis using True ts tu e go
          by (subst (1 2 3 4 5 6 7 8) readBytesUntil_loop.simps) simp
      qed
    qed
  qed
qed

lemma readLn_same_input:
  assumes "now u = now s" "rx u = rx s"
  shows "fst (readLn buffer bsize timeout u) = fst (readLn buffer bsize timeout s) \<and>
         fst (snd (readLn buffer bsize timeout u)) = fst (snd (readLn buffer bsize timeout s)) \<and>
         now (snd (snd (readLn buffer bsize timeout u))) = now (snd (snd (readLn buffer bsize timeout s))) \<and>
         rx (snd (snd (readLn buffer bsize timeout u))) = rx (snd (snd (readLn buffer bsize timeout s)))"
proof -
  note l = readBytesUntil_loop_same_input [rule_format, of u s LF timeout "size_sub bsize (Suc 0)" 0 buffer]
  obtain k b s1 where rs: "readBytesUntil_loop LF timeout (size_sub bsize (Suc 0)) 0 buffer s = (k, b, s1)"
    by (metis prod_cases3)
  obtain k' b' u1 where ru: "readBytesUntil_loop LF timeout (size_sub bsize (Suc 0)) 0 buffer u = (k', b', u1)"
    by (metis prod_cases3)
  from l assms rs ru have e: "k' = k" "b' = b" "now u1 = now s1" "rx u1 = rx s1" by simp_all
  show ?thesis
    using assms rs ru e
    by (simp add: readLn_unfold readBytesUntil_def)
qed


lemma readResponse_line_same_input:
  assumes "same_input s u"
  shows "fst (readResponse_line cfg m prefix count (ob, n, u)) =
           fst (readResponse_line cfg m prefix count (ob, n, s)) \<and>
         fst (snd (readResponse_line cfg m prefix count (ob, n, u))) =
           fst (snd (readResponse_line cfg m prefix count (ob, n, s))) \<and>
         fst (snd (snd (readResponse_line cfg m prefix count (ob, n, u)))) =
           fst (snd (snd (readResponse_line cfg m prefix count (ob, n, s)))) \<and>
         same_input (snd (snd (snd (readResponse_line cfg m prefix count (ob, n, s)))))
                    (snd (snd (snd (readResponse_line cfg m prefix count (ob, n, u)))))"
proof -
  let ?l = "c_str (inputBuffer s)"
  have ib: "inputBuffer u = inputBuffer s" using assms by (simp add: same_input_def)
  have f: "fst (checkURC cfg ?l u) = fst (checkURC cfg ?l s)"
    by (rule checkURC_fst)
  have k: "same_input (snd (checkURC cfg ?l s)) (snd (checkURC cfg ?l u))"
    using assms by (simp add: same_input_def)
  show ?thesis
  proof (cases "count \<le> 0 \<or> startsWith STR_AT ?l \<or> startsWith STR_RESPONSE_OK ?l \<or>
      startsWith STR_RESPONSE_ERROR ?l \<or> startsWith STR_RESPONSE_CME_ERROR ?l \<or>
      startsWith STR_RESPONSE_CMS_ERROR ?l")
    case True
    then show ?thesis using assms by (auto simp: readResponse_line_def Let_def ib)
  next
    case False
    let ?hp = "(prefix \<noteq> None \<and> the prefix \<noteq> []) \<and> (ob \<noteq> None \<and> 0 < m) \<and> startsWith (the prefix) ?l"
    show ?thesis
    proof (cases ?hp)
      case hp: True
      with False assms show ?thesis
        by (simp add: readResponse_line_def Let_def ib case_prod_beta)
    next
      case nhp: False
      show ?thesis
      proof (cases "fst (checkURC cfg ?l s)")
        case True
        with False nhp f k show ?thesis
          by (simp add: readResponse_line_def Let_def ib case_prod_beta)
      next
        case nh: False
        with False nhp f k show ?thesis
          by (auto simp: readResponse_line_def Let_def ib case_prod_beta)
      qed
    qed
  qed
qed

lemma readResponse_body_same_input:
  assumes "same_input s u"
  shows "fst (readResponse_body cfg m prefix (ob, n, u)) = fst (readResponse_body cfg m prefix (ob, n, s)) \<and>
         fst (snd (readResponse_body cfg m prefix (ob, n, u))) =
           fst (snd (readResponse_body cfg m prefix (ob, n, s))) \<and>
         fst (snd (snd (readResponse_body cfg m prefix (ob, n, u)))) =
           fst (snd (snd (readResponse_body cfg m prefix (ob, n, s)))) \<and>
         same_input (snd (snd (snd (readResponse_body cfg m prefix (ob, n, s)))))
                    (snd (snd (snd (readResponse_body cfg m prefix (ob, n, u)))))"
proof -
  have e: "now u = now s" "rx u = rx s" "inputBuffer u = inputBuffer s"
    using assms by (simp_all add: same_input_def)
  obtain len ib s0 where ls: "readLn (inputBuffer s) inputBufferSize 250 s = (len, ib, s0)"
    by (metis prod_cases3)
  obtain len' ib' u0 where lu: "readLn (inputBuffer s) inputBufferSize 250 u = (len', ib', u0)"
    by (metis prod_cases3)
  from readLn_same_input [OF e(1,2), of "inputBuffer s" inputBufferSize 250] ls lu
  have r: "len' = len" "ib' = ib" "now u0 = now s0" "rx u0 = rx s0" by simp_all
  then have "same_input (s0\<lparr>inputBuffer := ib\<rparr>) (u0\<lparr>inputBuffer := ib\<rparr>)"
    by (simp add: same_input_def)
  from readResponse_line_same_input [OF this, of cfg m prefix "as_int len" ob n]
  show ?thesis using ls lu r e(3) by (simp add: readResponse_body_def)
qed

lemma readResponse_loop_same_input:
  "\<forall>u. same_input (snd (snd st)) u \<longrightarrow>
     fst (readResponse_loop cfg m prefix timeout from_ms (fst st, fst (snd st), u)) =
       fst (readResponse_loop cfg m prefix timeout from_ms st)"
proof (induction cfg m prefix timeout from_ms st rule: readResponse_loop.induct)
  case (1 cfg m prefix timeout from_ms st)
  obtain ob n s where st: "st = (ob, n, s)" by (cases st)
  show ?case
  proof (intro allI impI)
    fix u assume "same_input (snd (snd st)) u"
    with st have a: "same_input s u" by simp
    then have nw: "now u = now s" by (simp add: same_input_def)
    show "fst (readResponse_loop cfg m prefix timeout from_ms (fst st, fst (snd st), u)) =
       fst (readResponse_loop cfg m prefix timeout from_ms st)"
    proof (cases "is_timedout from_ms timeout s")
      case True
      then have "is_timedout from_ms timeout u" using nw by (simp add: is_timedout_def)
      with True st show ?thesis by (simp add: readResponse_loop.simps)
    next
      case False
      then have fu: "\<not> is_timedout from_ms timeout u" using nw by (simp add: is_timedout_def)
      obtain x ob1 n1 s1 where bs: "readResponse_body cfg m prefix (ob, n, s) = (x, ob1, n1, s1)"
        by (cases "readResponse_body cfg m prefix (ob, n, s)")
      obtain x' ob1' n1' u1 where bu: "readResponse_body cfg m prefix (ob, n, u) = (x', ob1', n1', u1)"
        by (cases "readResponse_body cfg m prefix (ob, n, u)")
      from readResponse_body_same_input [OF a, of cfg m prefix ob n] bs bu
      have e: "x' = x" "ob1' = ob1" "n1' = n1" "same_input s1 u1" by simp_all
      show ?thesis
      proof (cases x)
        case (Some r)
        with False fu bs bu e st show ?thesis by (simp add: readResponse_loop.simps)
      next
        case None
        have "\<forall>u. same_input (snd (snd (ob1, n1, s1))) u \<longrightarrow>
            fst (readResponse_loop cfg m prefix timeout from_ms (fst (ob1, n1, s1), fst (snd (ob1, n1, s1)), u)) =
            fst (readResponse_loop cfg m prefix timeout from_ms (ob1, n1, s1))"
          using False bs None st by (intro "1.IH") simp_all
        with e(4) have "fst (readResponse_loop cfg m prefix timeout from_ms (ob1, n1, u1)) =
              fst (readResponse_loop cfg m prefix timeout from_ms (ob1, n1, s1))"
          by simp
        with False fu bs bu e None st show ?thesis by (simp add: readResponse_loop.simps)
      qed
    qed
  qed
qed

text \<open>
  The outcome of \<open>readResponse\<close> depends on the clock, the receive queue and the input
  buffer only: not on the socket table and not on what has been written to the modem.
\<close>

lemma readResponse_same_input:
  assumes "same_input s u"
  shows "fst (readResponse cfg ob m prefix timeout u) = fst (readResponse cfg ob m prefix timeout s)"
proof -
  have "now u = now s" using assms by (simp add: same_input_def)
  with readResponse_loop_same_input [rule_format, of "(map_option (\<lambda>b. poke b 0 NUL) ob, 0, s)" u
      cfg m prefix timeout "now s"] assms
  show ?thesis by (simp add: readResponse_def)
qed

lemma socketClose_result:
  "fst (socketClose cfg socketID async s) =
     (fst (readResponse cfg None 0 None SOCKET_CLOSE_TIMEOUT s) = GSMResponseOK)"
proof -
  let ?s1 = "print_num (unat socketID) (print_str ''AT+USOCL='' s)"
  let ?s2 = "if async then println_str '',1'' ?s1 else println ?s1"
  let ?s3 = "?s2\<lparr>socketClosedBit := poke (socketClosedBit ?s2) (uint socketID) True\<rparr>"
  let ?s4 = "?s3\<lparr>socketPendingBytes := poke (socketPendingBytes ?s3) (uint socketID) 0\<rparr>"
  obtain r b s' where rr: "readResponse cfg None 0 None SOCKET_CLOSE_TIMEOUT ?s4 = (r, b, s')"
    by (metis prod_cases3)
  have sc: "socketClose cfg socketID async s = (r = GSMResponseOK, s')"
    using rr by (simp add: socketClose_def Let_def)
  have "same_input s ?s4" by (simp add: same_input_def)
  from readResponse_same_input [OF this, of cfg None 0 None SOCKET_CLOSE_TIMEOUT] rr
  have "fst (readResponse cfg None 0 None SOCKET_CLOSE_TIMEOUT s) = r" by simp
  with sc show ?thesis by simp
qed

subsection \<open>The table and the result after a close\<close>

lemma data_arrival_examples:
  "\<not> data_arrival 3 ''+UUSORF: 0,5''" "data_arrival 0 ''+UUSORF: 0,5''"
  by code_simp+

text \<open>
  Claim C7, as amended. After \<open>socketClose\<close> the session is marked closed, whatever the
  modem sends and whenever. The result is true exactly if \<open>readResponse\<close>, called with no
  buffer, no prefix and the timeout of a close, returns \<open>GSMResponseOK\<close> on this input: it
  depends neither on the table nor on the id. The session has no pending bytes if, with
  the input buffer allocated, the bytes that the call takes from the modem do not contain
  \<^verbatim>\<open>+UUSORF:\<close>. When the lines of the modem are in the receive queue as the call starts,
  the result is true exactly if the first final line starts with \<^verbatim>\<open>OK\<close>, so it is false on
  an error line and when there is no final line and the call times out; and the session
  has no pending bytes if none of the lines before the first final line is a
  \<^verbatim>\<open>+UUSORF\<close> notification for this session.
\<close>

theorem socketClose_outcome:
  "peek (socketClosedBit (snd (socketClose cfg socketID async s))) (uint socketID) \<and>
   fst (socketClose cfg socketID async s) =
     (fst (readResponse cfg None 0 None SOCKET_CLOSE_TIMEOUT s) = GSMResponseOK) \<and>
   (input_ready s \<and> \<not> occurs ''+UUSORF:'' (received s (snd (socketClose cfg socketID async s))) \<longrightarrow>
      peek (socketPendingBytes (snd (socketClose cfg socketID async s))) (uint socketID) = 0) \<and>
   (rx s = queued t ls \<and> t \<le> now s \<and> input_ready s \<and> (\<forall>l\<in>set ls. whole_line l) \<longrightarrow>
      fst (socketClose cfg socketID async s) =
        (case dropWhile (\<lambda>l. \<not> final_line l) ls of [] \<Rightarrow> False
         | l # _ \<Rightarrow> startsWith STR_RESPONSE_OK l) \<and>
      ((\<forall>l\<in>set (takeWhile (\<lambda>l. \<not> final_line l) ls). \<not> data_arrival (uint socketID) l) \<longrightarrow>
         peek (socketPendingBytes (snd (socketClose cfg socketID async s))) (uint socketID) = 0))"
proof -
  let ?s1 = "print_num (unat socketID) (print_str ''AT+USOCL='' s)"
  let ?s2 = "if async then println_str '',1'' ?s1 else println ?s1"
  let ?s3 = "?s2\<lparr>socketClosedBit := poke (socketClosedBit ?s2) (uint socketID) True\<rparr>"
  let ?s4 = "?s3\<lparr>socketPendingBytes := poke (socketPendingBytes ?s3) (uint socketID) 0\<rparr>"
  obtain r b s' where rr: "readResponse cfg None 0 None SOCKET_CLOSE_TIMEOUT ?s4 = (r, b, s')"
    by (metis prod_cases3)
  have sc: "socketClose cfg socketID async s = (r = GSMResponseOK, s')"
    using rr by (simp add: socketClose_def Let_def)
  have s4: "rx ?s4 = rx s" "input_ready ?s4 = input_ready s" "now ?s4 = now s"
    "peek (socketClosedBit ?s4) (uint socketID)"
    "peek (socketPendingBytes ?s4) (uint socketID) = 0"
    by (simp_all add: input_ready_def peek_poke)
  have rec: "received ?s4 s' = received s s'" using s4(1) by (simp add: received_def)
  have a: "peek (socketClosedBit s') (uint socketID)"
    using readResponse_closed [OF rr s4(4)] .
  have b: "peek (socketPendingBytes s') (uint socketID) = 0"
    if "input_ready s" "\<not> occurs ''+UUSORF:'' (received s s')"
    using readResponse_unreceived [OF rr] that s4 rec by simp
  have c: "(r = GSMResponseOK) =
        (case dropWhile (\<lambda>l. \<not> final_line l) ls of [] \<Rightarrow> False
         | l # _ \<Rightarrow> startsWith STR_RESPONSE_OK l) \<and>
      ((\<forall>l\<in>set (takeWhile (\<lambda>l. \<not> final_line l) ls). \<not> data_arrival (uint socketID) l) \<longrightarrow>
         peek (socketPendingBytes s') (uint socketID) = 0)"
    if h: "rx s = queued t ls" "t \<le> now s" "input_ready s" "\<forall>l\<in>set ls. whole_line l"
  proof -
    have loop: "readResponse_loop cfg 0 None SOCKET_CLOSE_TIMEOUT (now ?s4) (None, 0, ?s4) = (r, b, s')"
      using rr by (simp add: readResponse_def)
    have q123: "rx ?s4 = queued t ls" "t \<le> now ?s4" "input_ready ?s4"
      using h by (simp_all add: input_ready_def)
    have q4: "\<not> is_timedout (now ?s4) SOCKET_CLOSE_TIMEOUT ?s4"
      by (rule not_timedout_start)
    note q = q123 q4
    from readResponse_loop_lines [OF q h(4) loop, of "uint socketID"] s4(5)
    show ?thesis by simp
  qed
  have d: "(r = GSMResponseOK) = (fst (readResponse cfg None 0 None SOCKET_CLOSE_TIMEOUT s) = GSMResponseOK)"
    using socketClose_result [of cfg socketID async s] by (simp add: sc)
  show ?thesis unfolding sc fst_conv snd_conv using a b c d by blast
qed

theorem socketClose_outcome_witness:
  "peek (socketClosedBit (snd (socketClose example_config 3 False
      (with_pending 3 9 (initial_modem 7 (queued 0 [''OK'']))))))
     (uint (3 :: 8 word)) \<and>
   \<not> occurs ''+UUSORF:'' (received (with_pending 3 9 (initial_modem 7 (queued 0 [''OK''])))
      (snd (socketClose example_config 3 False (with_pending 3 9 (initial_modem 7 (queued 0 [''OK'']))))))
   \<and>
   peek (socketPendingBytes (snd (socketClose example_config 3 False
      (with_pending 3 9 (initial_modem 7 (queued 0 [''OK'']))))))
     (uint (3 :: 8 word)) = 0 \<and>
   fst (socketClose example_config 3 False
      (with_pending 3 9 (initial_modem 7 (queued 0 [''+UUSORF: 0,5'', ''OK''])))) \<and>
   peek (socketPendingBytes (snd (socketClose example_config 3 False
      (with_pending 3 9 (initial_modem 7 (queued 0 [''+UUSORF: 0,5'', ''OK'']))))))
     (uint (3 :: 8 word)) = 0 \<and>
   \<not> fst (socketClose example_config 3 False
      (with_pending 3 9 (initial_modem 7 (queued 0 [''+CME ERROR: BROKEN'', ''OK'']))))"
proof -
  let ?a = "with_pending 3 9 (initial_modem 7 (queued 0 [''OK'']))"
  let ?b = "with_pending 3 9 (initial_modem 7 (queued 0 [''+UUSORF: 0,5'', ''OK'']))"
  let ?c = "with_pending 3 9 (initial_modem 7 (queued 0 [''+CME ERROR: BROKEN'', ''OK'']))"
  have ra: "input_ready ?a" "rx ?a = queued 0 [''OK'']"
    by (simp_all add: with_pending_def input_ready_def initial_modem_def)
  have rr: "\<And>v. rx v = queued 0 [''OK''] \<Longrightarrow> input_ready v \<Longrightarrow>
      readResponse example_config None 0 None SOCKET_CLOSE_TIMEOUT v = (GSMResponseOK, None, after_line ''OK'' [] v)"
    by (rule readResponse_OK_only [where t = 0]) simp_all
  have "rx (snd (socketClose example_config 3 False ?a)) = []"
    using ra by (simp add: socketClose_def Let_def rr input_ready_def)
  then have "received ?a (snd (socketClose example_config 3 False ?a)) = map snd (queued 0 [''OK''])"
    using ra(2) by (simp add: received_def)
  then have na: "\<not> occurs ''+UUSORF:'' (received ?a (snd (socketClose example_config 3 False ?a)))"
    by (simp add: queued_def SODAQ_GSM_TERMINATOR_def startsWith_def CR_def LF_def)
  have rb: "input_ready ?b" "rx ?b = queued 0 [''+UUSORF: 0,5'', ''OK'']" "0 \<le> now ?b"
    "\<forall>l\<in>set [''+UUSORF: 0,5'', ''OK'']. whole_line l"
    by (simp_all add: with_pending_def input_ready_def initial_modem_def whole_line_def LF_def NUL_def)
  have rc: "input_ready ?c" "rx ?c = queued 0 [''+CME ERROR: BROKEN'', ''OK'']" "0 \<le> now ?c"
    "\<forall>l\<in>set [''+CME ERROR: BROKEN'', ''OK'']. whole_line l"
    by (simp_all add: with_pending_def input_ready_def initial_modem_def whole_line_def LF_def NUL_def)
  have f: "\<not> final_line ''+UUSORF: 0,5''" "final_line ''OK''" "final_line ''+CME ERROR: BROKEN''"
    "startsWith STR_RESPONSE_OK ''OK''" "\<not> startsWith STR_RESPONSE_OK ''+CME ERROR: BROKEN''"
    by (simp_all add: final_line_def startsWith_def STR_RESPONSE_OK_def STR_RESPONSE_ERROR_def
        STR_RESPONSE_CME_ERROR_def STR_RESPONSE_CMS_ERROR_def)
  note A = socketClose_outcome [of example_config 3 False ?a 0 "[''OK'']"]
  note B = socketClose_outcome [of example_config 3 False ?b 0 "[''+UUSORF: 0,5'', ''OK'']"]
  note C = socketClose_outcome [of example_config 3 False ?c 0 "[''+CME ERROR: BROKEN'', ''OK'']"]
  have 1: "peek (socketClosedBit (snd (socketClose example_config 3 False ?a))) (uint (3 :: 8 word))"
    using A [THEN conjunct1] .
  have 2: "peek (socketPendingBytes (snd (socketClose example_config 3 False ?a))) (uint (3 :: 8 word)) = 0"
    using A [THEN conjunct2, THEN conjunct2, THEN conjunct1] ra na by simp
  have 3: "fst (socketClose example_config 3 False ?b) \<and>
      peek (socketPendingBytes (snd (socketClose example_config 3 False ?b))) (uint (3 :: 8 word)) = 0"
    using B [THEN conjunct2, THEN conjunct2, THEN conjunct2] rb f data_arrival_examples(1) by simp
  have 4: "\<not> fst (socketClose example_config 3 False ?c)"
    using C [THEN conjunct2, THEN conjunct2, THEN conjunct2] rc f by simp
  from 1 na 2 3 4 show ?thesis by blast
qed

text \<open>
  The claim as stated does not hold: a notification of five bytes for session 0 that
  arrives before the \<open>OK\<close> of the close is absorbed after the counter has been cleared.
\<close>

theorem socketClose_pending_after_notification:
  "fst (socketClose example_config 0 False (initial_modem 7 (queued 0 [''+UUSORF: 0,5'', ''OK'']))) \<and>
   peek (socketPendingBytes (snd (socketClose example_config 0 False
           (initial_modem 7 (queued 0 [''+UUSORF: 0,5'', ''OK'']))))) 0 = 5"
proof -
  let ?s = "initial_modem 7 (queued 0 [''+UUSORF: 0,5'', ''OK''])"
  let ?s1 = "print_num (unat (0 :: 8 word)) (print_str ''AT+USOCL='' ?s)"
  let ?s2 = "println ?s1"
  let ?s3 = "?s2\<lparr>socketClosedBit := poke (socketClosedBit ?s2) 0 True\<rparr>"
  let ?s4 = "?s3\<lparr>socketPendingBytes := poke (socketPendingBytes ?s3) 0 0\<rparr>"
  have u: "\<And>v. checkURC example_config ''+UUSORF: 0,5'' v =
      (True, v\<lparr>socketPendingBytes := poke (socketPendingBytes v) 0 (peek (socketPendingBytes v) 0 + 5)\<rparr>)"
    by (simp add: checkURC_def sscanf_UUSORF_0_5 Let_def int_arg_def example_config_def)
  have rr: "\<And>v. rx v = queued 0 [''+UUSORF: 0,5'', ''OK''] \<Longrightarrow> input_ready v \<Longrightarrow>
      readResponse example_config None 0 None SOCKET_CLOSE_TIMEOUT v =
      (GSMResponseOK, None,
       after_line ''OK'' [] (snd (checkURC example_config ''+UUSORF: 0,5''
          (after_line ''+UUSORF: 0,5'' (queued 0 [''OK'']) v))))"
    by (rule readResponse_notified [where t = 0]) (simp_all add: u LF_def NUL_def)
  show ?thesis
    by (simp add: socketClose_def Let_def rr u peek_poke input_ready_def initial_modem_def)
qed

subsection \<open>The pending bytes after a notification and after a receive\<close>

lemma hex_decode_loop_in_bounds:
  "bound \<le> 2 * length (cells b) \<Longrightarrow> \<not> stray b \<Longrightarrow>
     \<not> stray (hex_decode_loop ob bound i b) \<and>
     length (cells (hex_decode_loop ob bound i b)) = length (cells b)"
proof (induction ob bound i b rule: hex_decode_loop.induct)
  case (1 outBuffer bound i buffer)
  show ?case
  proof (cases "i < bound")
    case False
    then show ?thesis using "1.prems" by (simp add: hex_decode_loop.simps)
  next
    case True
    let ?b = "poke buffer (int (i div 2))
       (word_of_int (HEX_PAIR_TO_BYTE (of_char (peek outBuffer (int i))) (of_char (peek outBuffer (int (i + 1))))))"
    have "i div 2 < length (cells buffer)" using True "1.prems"(1) by linarith
    then have "in_cells buffer (int (i div 2))" by (simp add: in_cells_def)
    then have b: "\<not> stray ?b" "length (cells ?b) = length (cells buffer)"
      using "1.prems"(2) by (simp_all add: stray_poke)
    from "1.IH" [OF True] b "1.prems"(1)
    have "\<not> stray (hex_decode_loop outBuffer bound (i + 2) ?b) \<and>
          length (cells (hex_decode_loop outBuffer bound (i + 2) ?b)) = length (cells buffer)"
      by simp
    then show ?thesis using True by (subst (1 2) hex_decode_loop.simps) simp
  qed
qed

lemma plain_line_facts:
  assumes "plain_line cfg s l"
  shows "l \<noteq> []" "LF \<notin> set l" "NUL \<notin> set l" "length l \<le> 1021"
    "\<not> startsWith STR_AT l" "\<not> startsWith STR_RESPONSE_OK l"
    "\<not> startsWith STR_RESPONSE_ERROR l" "\<not> startsWith STR_RESPONSE_CME_ERROR l"
    "\<not> startsWith STR_RESPONSE_CMS_ERROR l" "\<not> fst (checkURC cfg l v)"
  using assms checkURC_fst [of cfg l s v] by (simp_all add: plain_line_def)

text \<open>\<open>socketReceive\<close> when the modem answers with one line of payload and \<open>OK\<close>.\<close>

lemma socketReceive_lines:
  assumes q: "rx s = queued t [l, ''OK'']" "t \<le> now s" "input_ready s"
    and p: "socketHasPendingBytes socketID s"
    and l: "plain_line cfg s l"
    and cap: "length l < SODAQ_N3X_MAX_UDP_BUFFER cfg" "SODAQ_N3X_MAX_UDP_BUFFER cfg \<le> 2 ^ 31"
  shows "fst (socketReceive cfg socketID buffer bsize s) = (if reply_ok cfg l then unat (reply_size l) else 0)"
    and "socketPendingBytes (snd (snd (socketReceive cfg socketID buffer bsize s))) =
           (if reply_ok cfg l
            then poke (socketPendingBytes s) (uint socketID)
                   (peek (socketPendingBytes s) (uint socketID) - reply_size l)
            else socketPendingBytes s)"
    and "rx (snd (snd (socketReceive cfg socketID buffer bsize s))) = []"
    and "\<exists>ob. fst (snd (socketReceive cfg socketID buffer bsize s)) = buffer \<or>
              reply_ok cfg l \<and> buffer \<noteq> None \<and>
              fst (snd (socketReceive cfg socketID buffer bsize s)) =
                Some (hex_decode_loop ob (size_add (unat (reply_size l)) (unat (reply_size l))) 0 (the buffer))"
proof -
  let ?m = "SODAQ_N3X_MAX_UDP_BUFFER cfg"
  let ?s1 = "println_num (unat socketID) (print_str ''AT+USORF='' s)"
  have s1: "rx ?s1 = queued t [l, ''OK'']" "t \<le> now ?s1" "input_ready ?s1"
    using q by (simp_all add: input_ready_def)
  note pl = plain_line_facts [OF l]
  let ?b = "(local_array ?m)\<lparr>cells := l @ NUL # drop (Suc (length l)) (cells (local_array ?m))\<rparr>"
  let ?s2 = "after_line ''OK'' [] (after_line l (queued t [''OK'']) ?s1)"
  have rr: "readResponse cfg (Some (local_array ?m)) ?m None (DEFAULT_READ_MS cfg) ?s1
      = (GSMResponseOK, Some ?b, ?s2)"
    using pl cap by (intro readResponse_plain_reply s1) (simp_all add: local_array_def)
  have cs: "c_str ?b = l" using pl(3) by (auto simp: c_str_def takeWhile_tail)
  have t2: "socketPendingBytes ?s2 = socketPendingBytes s" "rx ?s2 = []" by simp_all
  have ok: "reply_ok cfg l = (\<not> (fst (reply_fields l) \<noteq> 3) \<and>
      \<not> (reply_id l < 0 \<or> int (SOCKET_COUNT cfg) \<le> reply_id l))"
    by (auto simp: reply_ok_def)
  have eq: "socketReceive cfg socketID buffer bsize s =
     (if \<not> reply_ok cfg l then (0, buffer, ?s2)
      else (unat (reply_size l),
            (if buffer \<noteq> None \<and>
                min bsize (min ?m (unat (peek (socketPendingBytes s) (uint socketID)))) > 0
             then Some (hex_decode_loop (store_str ?b 0 (str_arg (snd (reply_fields l)) 2))
                          (size_add (unat (reply_size l)) (unat (reply_size l))) 0 (the buffer))
             else buffer),
            ?s2\<lparr>socketPendingBytes :=
                   poke (socketPendingBytes ?s2) (uint socketID)
                     (peek (socketPendingBytes ?s2) (uint socketID) - reply_size l)\<rparr>))"
    unfolding socketReceive_def Let_def rr ok using p cap(1)
    by (simp add: cs reply_fields_def reply_id_def reply_size_def del: after_line_simps)
  show "fst (socketReceive cfg socketID buffer bsize s) = (if reply_ok cfg l then unat (reply_size l) else 0)"
    unfolding eq by simp
  show "socketPendingBytes (snd (snd (socketReceive cfg socketID buffer bsize s))) =
           (if reply_ok cfg l
            then poke (socketPendingBytes s) (uint socketID)
                   (peek (socketPendingBytes s) (uint socketID) - reply_size l)
            else socketPendingBytes s)"
    unfolding eq using t2 by simp
  show "rx (snd (snd (socketReceive cfg socketID buffer bsize s))) = []"
    unfolding eq using t2 by simp
  show "\<exists>ob. fst (snd (socketReceive cfg socketID buffer bsize s)) = buffer \<or>
              reply_ok cfg l \<and> buffer \<noteq> None \<and>
              fst (snd (socketReceive cfg socketID buffer bsize s)) =
                Some (hex_decode_loop ob (size_add (unat (reply_size l)) (unat (reply_size l))) 0 (the buffer))"
    unfolding eq by auto
qed

lemma socketReceive_unreceived:
  assumes "input_ready s"
    and "\<not> occurs ''+UUSORF:'' (received s (snd (snd (socketReceive cfg socketID buffer bsize s))))"
  shows "peek (socketPendingBytes (snd (snd (socketReceive cfg socketID buffer bsize s)))) i =
           (if i = uint socketID
            then peek (socketPendingBytes s) i - of_nat (fst (socketReceive cfg socketID buffer bsize s))
            else peek (socketPendingBytes s) i)"
proof (cases "socketHasPendingBytes socketID s")
  case False
  then show ?thesis by (simp add: socketReceive_def)
next
  case True
  let ?s1 = "println_num (unat socketID) (print_str ''AT+USORF='' s)"
  obtain r ob s2 where rr:
    "readResponse cfg (Some (local_array (SODAQ_N3X_MAX_UDP_BUFFER cfg)))
        (SODAQ_N3X_MAX_UDP_BUFFER cfg) None (DEFAULT_READ_MS cfg) ?s1 = (r, ob, s2)"
    by (metis prod_cases3)
  have "rx (snd (snd (socketReceive cfg socketID buffer bsize s))) = rx s2"
    using True rr by (simp add: socketReceive_def Let_def)
  then have "received s (snd (snd (socketReceive cfg socketID buffer bsize s))) = received ?s1 s2"
    by (simp add: received_def)
  with assms(2) have n: "\<not> occurs ''+UUSORF:'' (received ?s1 s2)" by simp
  have "input_ready ?s1" using assms(1) by (simp add: input_ready_def)
  from readResponse_unreceived [OF rr this n]
  have p2: "socketPendingBytes s2 = socketPendingBytes s" by simp
  show ?thesis
    using True rr p2 by (simp add: socketReceive_def Let_def peek_poke)
qed

lemma reply_example:
  "reply_ok example_config ''+USORF: 0,\"1.2.3.4\",80,2,\"A1B2\"''"
  "reply_size ''+USORF: 0,\"1.2.3.4\",80,2,\"A1B2\"'' = 2"
  by (simp_all add: reply_ok_def reply_id_def reply_size_def reply_fields_def sscanf_USORF_reply(1)
      int_arg_def example_config_def)

lemma plain_line_reply_example:
  "plain_line example_config s ''+USORF: 0,\"1.2.3.4\",80,2,\"A1B2\"''"
  by (simp add: plain_line_def startsWith_def STR_AT_def STR_RESPONSE_OK_def STR_RESPONSE_ERROR_def
        STR_RESPONSE_CME_ERROR_def STR_RESPONSE_CMS_ERROR_def LF_def NUL_def
        checkURC_def sscanf_USORF_reply)

lemma arrival_example:
  "two_numbers ''+UUSORF:'' ''+UUSORF: 0,5''" "arrival_id ''+UUSORF: 0,5'' = 0"
  "arrival_count ''+UUSORF: 0,5'' = 5"
  by (simp_all add: sscanf_shapes(2) [symmetric] arrival_id_def arrival_count_def sscanf_UUSORF_0_5(1) int_arg_def)

text \<open>
  Claim C1, as amended. An entry of the table is an unsigned 32-bit number. \<open>checkURC\<close>
  changes the table exactly when the line has the shape of a \<^verbatim>\<open>+UUSORF\<close> notification and
  its id is a session: it adds the count of the line to the entry of that session. When
  \<open>socketReceive\<close> is called with bytes pending and the reply is in the receive queue, a
  line of payload and \<open>OK\<close>, it returns the length that the line reports and the table
  is the one before the call with that length subtracted from the entry of the session,
  if the line has the three fields and the id in it is a session; otherwise it returns 0
  and the table is as before. Here the length is at most the number of cells of the
  caller's buffer, and then no cell outside that buffer is written. Whatever the modem
  sends and whenever: if the bytes that the call takes from the modem do not contain
  \<^verbatim>\<open>+UUSORF:\<close> and the result is at most the number of cells of the caller's buffer,
  the entry of the session is the one before the call minus the result, the other
  entries are as before, and when the result is at most the entry before the call the
  entry is the difference of the two.
\<close>

theorem pendingBytes_updates:
  "socketPendingBytes (snd (checkURC cfg line s)) =
     (if two_numbers ''+UUSORF:'' line \<and> 0 \<le> arrival_id line \<and> arrival_id line < int (SOCKET_COUNT cfg)
      then poke (socketPendingBytes s) (arrival_id line)
             (peek (socketPendingBytes s) (arrival_id line) + arrival_count line)
      else socketPendingBytes s) \<and>
   (rx s = queued t [l, ''OK''] \<and> t \<le> now s \<and> input_ready s \<and> socketHasPendingBytes socketID s \<and>
    plain_line cfg s l \<and> length l < SODAQ_N3X_MAX_UDP_BUFFER cfg \<and> SODAQ_N3X_MAX_UDP_BUFFER cfg \<le> 2 ^ 31 \<and>
    (\<forall>b. buffer = Some b \<longrightarrow> \<not> stray b \<and> (reply_ok cfg l \<longrightarrow> unat (reply_size l) \<le> length (cells b)))
    \<longrightarrow>
      fst (socketReceive cfg socketID buffer bsize s) = (if reply_ok cfg l then unat (reply_size l) else 0) \<and>
      socketPendingBytes (snd (snd (socketReceive cfg socketID buffer bsize s))) =
        (if reply_ok cfg l
         then poke (socketPendingBytes s) (uint socketID)
                (peek (socketPendingBytes s) (uint socketID) - reply_size l)
         else socketPendingBytes s) \<and>
      (\<forall>b'. fst (snd (socketReceive cfg socketID buffer bsize s)) = Some b' \<longrightarrow> \<not> stray b')) \<and>
   (input_ready s \<and>
    \<not> occurs ''+UUSORF:'' (received s (snd (snd (socketReceive cfg socketID buffer bsize s)))) \<and>
    (\<forall>b. buffer = Some b \<longrightarrow> fst (socketReceive cfg socketID buffer bsize s) \<le> length (cells b))
    \<longrightarrow>
      peek (socketPendingBytes (snd (snd (socketReceive cfg socketID buffer bsize s)))) i =
        (if i = uint socketID
         then peek (socketPendingBytes s) i - of_nat (fst (socketReceive cfg socketID buffer bsize s))
         else peek (socketPendingBytes s) i) \<and>
      (fst (socketReceive cfg socketID buffer bsize s) \<le> unat (socketGetPendingBytes socketID s) \<longrightarrow>
         unat (socketGetPendingBytes socketID (snd (snd (socketReceive cfg socketID buffer bsize s)))) =
           unat (socketGetPendingBytes socketID s) - fst (socketReceive cfg socketID buffer bsize s)))"
proof -
  let ?res = "socketReceive cfg socketID buffer bsize s"
  let ?r = "fst ?res"
  let ?s' = "snd (snd ?res)"
  have two: "fst ?res = (if reply_ok cfg l then unat (reply_size l) else 0) \<and>
      socketPendingBytes ?s' =
        (if reply_ok cfg l
         then poke (socketPendingBytes s) (uint socketID)
                (peek (socketPendingBytes s) (uint socketID) - reply_size l)
         else socketPendingBytes s) \<and>
      (\<forall>b'. fst (snd ?res) = Some b' \<longrightarrow> \<not> stray b')"
    if h: "rx s = queued t [l, ''OK'']" "t \<le> now s" "input_ready s" "socketHasPendingBytes socketID s"
      "plain_line cfg s l" "length l < SODAQ_N3X_MAX_UDP_BUFFER cfg" "SODAQ_N3X_MAX_UDP_BUFFER cfg \<le> 2 ^ 31"
      and bf: "\<forall>b. buffer = Some b \<longrightarrow> \<not> stray b \<and> (reply_ok cfg l \<longrightarrow> unat (reply_size l) \<le> length (cells b))"
  proof -
    note sl = socketReceive_lines [OF h, of buffer bsize]
    have "\<not> stray b'" if b': "fst (snd ?res) = Some b'" for b'
    proof -
      from sl(4) obtain ob where
        "fst (snd ?res) = buffer \<or>
         reply_ok cfg l \<and> buffer \<noteq> None \<and>
         fst (snd ?res) = Some (hex_decode_loop ob (size_add (unat (reply_size l)) (unat (reply_size l))) 0 (the buffer))"
        by blast
      then show ?thesis
      proof
        assume "fst (snd ?res) = buffer"
        with b' bf show ?thesis by simp
      next
        assume a: "reply_ok cfg l \<and> buffer \<noteq> None \<and>
         fst (snd ?res) = Some (hex_decode_loop ob (size_add (unat (reply_size l)) (unat (reply_size l))) 0 (the buffer))"
        then obtain b where b: "buffer = Some b" by auto
        with bf a have nb: "\<not> stray b" "unat (reply_size l) \<le> length (cells b)" by simp_all
        have "size_add (unat (reply_size l)) (unat (reply_size l)) \<le> 2 * length (cells b)"
          using nb(2) mod_less_eq_dividend [of "unat (reply_size l) + unat (reply_size l)" "2 ^ 32"]
          by (simp add: size_add_def)
        from hex_decode_loop_in_bounds [OF this nb(1), of ob 0] a b b' show ?thesis by simp
      qed
    qed
    with sl(1,2) show ?thesis by blast
  qed
  have three: "unat (socketGetPendingBytes socketID ?s') = unat (socketGetPendingBytes socketID s) - ?r"
    if h: "input_ready s" "\<not> occurs ''+UUSORF:'' (received s ?s')"
      and le: "?r \<le> unat (socketGetPendingBytes socketID s)"
  proof -
    have "socketGetPendingBytes socketID ?s' = socketGetPendingBytes socketID s - of_nat ?r"
      using socketReceive_unreceived [OF h, of "uint socketID"]
      by (simp add: socketGetPendingBytes_def)
    moreover have "(of_nat ?r :: 32 word) \<le> socketGetPendingBytes socketID s"
      using le le_unat_uoi [OF le] by (simp add: word_le_nat_alt)
    ultimately show ?thesis
      using le by (simp add: unat_sub le_unat_uoi)
  qed
  show ?thesis
    using checkURC_pending_exact [of cfg line s] two three
      socketReceive_unreceived [of s cfg socketID buffer bsize i]
    by blast
qed

theorem pendingBytes_updates_witness:
  "peek (socketPendingBytes (snd (checkURC example_config ''+UUSORF: 0,5''
      (with_pending 0 5 (initial_modem 7 (queued 0 [''+USORF: 0,\"1.2.3.4\",80,2,\"A1B2\"'', ''OK'']))))))
     0 = 10 \<and>
   plain_line example_config
     (with_pending 0 5 (initial_modem 7 (queued 0 [''+USORF: 0,\"1.2.3.4\",80,2,\"A1B2\"'', ''OK''])))
     ''+USORF: 0,\"1.2.3.4\",80,2,\"A1B2\"'' \<and>
   fst (socketReceive example_config 0 (Some (filled_array 2 0)) 2
     (with_pending 0 5 (initial_modem 7 (queued 0 [''+USORF: 0,\"1.2.3.4\",80,2,\"A1B2\"'', ''OK''])))) = 2
   \<and>
   \<not> occurs ''+UUSORF:''
     (received (with_pending 0 5 (initial_modem 7 (queued 0 [''+USORF: 0,\"1.2.3.4\",80,2,\"A1B2\"'', ''OK''])))
        (snd (snd (socketReceive example_config 0 (Some (filled_array 2 0)) 2
          (with_pending 0 5 (initial_modem 7 (queued 0 [''+USORF: 0,\"1.2.3.4\",80,2,\"A1B2\"'', ''OK''])))))))
   \<and>
   unat (socketGetPendingBytes 0 (snd (snd (socketReceive example_config 0 (Some (filled_array 2 0)) 2
     (with_pending 0 5 (initial_modem 7 (queued 0 [''+USORF: 0,\"1.2.3.4\",80,2,\"A1B2\"'', ''OK''])))))))
     = 3"
proof -
  let ?L = "''+USORF: 0,\"1.2.3.4\",80,2,\"A1B2\"''"
  let ?s = "with_pending 0 5 (initial_modem 7 (queued 0 [?L, ''OK'']))"
  let ?buf = "Some (filled_array 2 (0 :: 8 word))"
  have pre: "peek (socketPendingBytes ?s) 0 = 5" by (rule pending_5_example)
  have g: "socketGetPendingBytes 0 ?s = 5" using pre by (simp add: socketGetPendingBytes_def)
  have r: "rx ?s = queued 0 [?L, ''OK'']" "0 \<le> now ?s" "input_ready ?s"
    by (simp_all add: with_pending_def input_ready_def initial_modem_def)
  have h: "socketHasPendingBytes 0 ?s" using pre by (simp add: socketHasPendingBytes_def)
  have pl: "plain_line example_config ?s ?L" by (rule plain_line_reply_example)
  have cap: "length ?L < SODAQ_N3X_MAX_UDP_BUFFER example_config" "SODAQ_N3X_MAX_UDP_BUFFER example_config \<le> 2 ^ 31"
    by (simp_all add: example_config_def)
  have bf: "\<forall>b. ?buf = Some b \<longrightarrow> \<not> stray b \<and> (reply_ok example_config ?L \<longrightarrow> unat (reply_size ?L) \<le> length (cells b))"
    by (simp add: filled_array_def reply_example)
  have e: "rx (snd (snd (socketReceive example_config 0 ?buf 2 ?s))) = []"
    by (rule socketReceive_lines(3) [OF r h pl cap])
  have "received ?s (snd (snd (socketReceive example_config 0 ?buf 2 ?s))) = map snd (queued 0 [?L, ''OK''])"
    unfolding received_def e r(1) by simp
  then have n: "\<not> occurs ''+UUSORF:'' (received ?s (snd (snd (socketReceive example_config 0 ?buf 2 ?s))))"
    using no_UUSORF_example [of 0] by simp
  have u: "peek (socketPendingBytes (snd (checkURC example_config ''+UUSORF: 0,5'' ?s))) 0 = 10"
  proof -
    have "socketPendingBytes (snd (checkURC example_config ''+UUSORF: 0,5'' ?s)) =
        poke (socketPendingBytes ?s) 0 (peek (socketPendingBytes ?s) 0 + 5)"
      using pendingBytes_updates [of example_config "''+UUSORF: 0,5''" ?s]
      by (simp add: arrival_example example_config_def)
    then show ?thesis using pre by (simp add: peek_poke)
  qed
  from pendingBytes_updates [of example_config "''+UUSORF: 0,5''" ?s 0 ?L 0 ?buf 2 0] r h pl cap bf
  have f: "fst (socketReceive example_config 0 ?buf 2 ?s) = 2"
    by (simp add: reply_example)
  have b3: "\<forall>b. ?buf = Some b \<longrightarrow> fst (socketReceive example_config 0 ?buf 2 ?s) \<le> length (cells b)"
    using f by (simp add: filled_array_def)
  from pendingBytes_updates [of example_config "''+UUSORF: 0,5''" ?s 0 ?L 0 ?buf 2 0] r(3) n b3 f g
  have "unat (socketGetPendingBytes 0 (snd (snd (socketReceive example_config 0 ?buf 2 ?s)))) = 3"
    by simp
  with u pl f n show ?thesis by blast
qed

text \<open>
  The claim as stated does not hold: the length subtracted is the one that the reply
  reports, and nothing compares it with the entry. With one byte pending and a reply of
  two bytes the call returns 2 and the entry becomes \<open>2\<^sup>3\<^sup>2 - 1\<close>.
\<close>

theorem socketReceive_pending_wraps:
  "peek (socketPendingBytes (with_pending 0 1 (initial_modem 7
      (queued 0 [''+USORF: 0,\"1.2.3.4\",80,2,\"A1B2\"'', ''OK''])))) 0 = 1 \<and>
   fst (socketReceive example_config 0 (Some (filled_array 2 0)) 2
     (with_pending 0 1 (initial_modem 7 (queued 0 [''+USORF: 0,\"1.2.3.4\",80,2,\"A1B2\"'', ''OK''])))) = 2 \<and>
   peek (socketPendingBytes (snd (snd (socketReceive example_config 0 (Some (filled_array 2 0)) 2
     (with_pending 0 1 (initial_modem 7 (queued 0 [''+USORF: 0,\"1.2.3.4\",80,2,\"A1B2\"'', ''OK''])))))))
     0 = 4294967295"
proof -
  let ?s = "with_pending 0 1 (initial_modem 7 (queued 0 [''+USORF: 0,\"1.2.3.4\",80,2,\"A1B2\"'', ''OK'']))"
  have pre: "peek (socketPendingBytes ?s) 0 = 1"
    by (simp add: with_pending_def peek_poke)
  have r: "rx ?s = queued 0 [''+USORF: 0,\"1.2.3.4\",80,2,\"A1B2\"'', ''OK'']" "input_ready ?s"
    by (simp_all add: with_pending_def input_ready_def initial_modem_def)
  have h: "socketHasPendingBytes 0 ?s" using pre by (simp add: socketHasPendingBytes_def)
  have f: "fst (socketReceive example_config 0 (Some (filled_array 2 0)) 2 ?s) = 2"
    using socketReceive_example [OF r(1) _ r(2) h] by simp
  have n: "\<not> occurs ''+UUSORF:'' (map snd (rx ?s))" unfolding r(1) by (rule no_UUSORF_example)
  show ?thesis
    using socketReceive_pending [OF r(2) n, of example_config 0 "Some (filled_array 2 0)" 2 0] pre f
    by simp
qed

text \<open>The count of a notification is read with \<^verbatim>\<open>%d\<close>; a negative one lowers the entry.\<close>

lemma sscanf_UUSORF_negative:
  "sscanf ''+UUSORF: 0,-1'' ''+UUSORF: %d,%d'' = (2, [IntV 0, IntV (- 1)])"
  "fst (sscanf ''+UUSORF: 0,-1'' ''+UFOTAS: %d,%d'') = 0"
  by code_simp+

lemma checkURC_negative_count:
  "peek (socketPendingBytes (snd (checkURC example_config ''+UUSORF: 0,-1''
      (with_pending 0 5 (initial_modem 7 []))))) 0 = 4"
  using pending_5_example [of "[]"]
  by (simp add: checkURC_def sscanf_UUSORF_negative Let_def int_arg_def example_config_def peek_poke)

end
